theory Spec2Isabelle
  imports Main
begin

section \<open>Pixmaps, colours and the Qt routines the notebook calls\<close>

text \<open>
  The program is \<^verbatim>\<open>src/notebook.py\<close>: a PyQt5 drawing notebook. A \<^verbatim>\<open>QPixmap\<close> is
  a width, a height and its rows of pixels; a pixel is a red, green, blue and alpha
  component. Python's integers are \<open>int\<close>; a \<^verbatim>\<open>QPoint\<close> is a pair of them.
\<close>

type_synonym point = "int \<times> int"

datatype rgba = RGBA nat nat nat nat

fun alpha :: "rgba \<Rightarrow> nat" where
  "alpha (RGBA r g b a) = a"

definition white :: rgba where
  "white = RGBA 255 255 255 255"

definition black :: rgba where
  "black = RGBA 0 0 0 255"

definition red :: rgba where
  "red = RGBA 255 0 0 255"

record pixmap =
  pm_width :: nat
  pm_height :: nat
  pm_rows :: "rgba list list"

text \<open>\<^verbatim>\<open>QPixmap()\<close>, the null pixmap: what Qt returns when an image cannot be loaded.\<close>

definition null_pixmap :: pixmap where
  "null_pixmap = \<lparr>pm_width = 0, pm_height = 0, pm_rows = []\<rparr>"

definition isNull :: "pixmap \<Rightarrow> bool" where
  "isNull pm = (pm_width pm = 0 \<or> pm_height pm = 0)"

text \<open>\<^verbatim>\<open>QPixmap(w, h)\<close> followed by \<^verbatim>\<open>fill(c)\<close>.\<close>

definition filled :: "int \<Rightarrow> int \<Rightarrow> rgba \<Rightarrow> pixmap" where
  "filled w h c =
     (if w \<le> 0 \<or> h \<le> 0 then null_pixmap
      else \<lparr>pm_width = nat w, pm_height = nat h,
            pm_rows = replicate (nat h) (replicate (nat w) c)\<rparr>)"

text \<open>\<^verbatim>\<open>QImage.pixel(p)\<close> for a point inside the image.\<close>

definition pixel :: "pixmap \<Rightarrow> point \<Rightarrow> rgba" where
  "pixel pm p = pm_rows pm ! nat (snd p) ! nat (fst p)"

text \<open>\<^verbatim>\<open>QColor(rgb)\<close>: the colour of a pixel value; its alpha is ignored and set solid.\<close>

fun QColor :: "rgba \<Rightarrow> rgba" where
  "QColor (RGBA r g b a) = RGBA r g b 255"

text \<open>
  The routines of Qt whose pixel arithmetic is not part of the repository are
  parameters of the model: the image decoder (\<open>None\<close> when the file cannot be decoded),
  the smooth scaling of a decoded image, the antialiased rasterisation of a line (the
  new value of each pixel of the target), and the blending of a translucent pixel.
\<close>

record qt =
  load_image :: "string \<Rightarrow> pixmap option"
  smooth_scaled :: "pixmap \<Rightarrow> nat \<Rightarrow> nat \<Rightarrow> pixmap"
  line_pixel :: "point \<Rightarrow> point \<Rightarrow> rgba \<Rightarrow> int \<Rightarrow> point \<Rightarrow> rgba \<Rightarrow> rgba"
  blend :: "rgba \<Rightarrow> rgba \<Rightarrow> rgba"

text \<open>\<^verbatim>\<open>QPixmap(image_path)\<close>: a file that cannot be decoded gives the null pixmap.\<close>

definition QPixmap_of_file :: "qt \<Rightarrow> string \<Rightarrow> pixmap" where
  "QPixmap_of_file q path = (case load_image q path of None \<Rightarrow> null_pixmap | Some pm \<Rightarrow> pm)"

text \<open>\<^verbatim>\<open>QPixmap.scaled(w, h, ...)\<close>: scaling the null pixmap gives the null pixmap.\<close>

definition scaled :: "qt \<Rightarrow> pixmap \<Rightarrow> nat \<Rightarrow> nat \<Rightarrow> pixmap" where
  "scaled q pm w h = (if isNull pm then null_pixmap else smooth_scaled q pm w h)"

text \<open>
  A painter changes the pixels of its target and never its size: \<open>repaint f pm\<close> gives
  every pixel of \<open>pm\<close> the value \<open>f\<close> computes from its position and old value.
\<close>

definition repaint :: "(point \<Rightarrow> rgba \<Rightarrow> rgba) \<Rightarrow> pixmap \<Rightarrow> pixmap" where
  "repaint f pm =
     pm\<lparr>pm_rows :=
          map (\<lambda>y. map (\<lambda>x. f (int x, int y) (pm_rows pm ! y ! x)) [0..<pm_width pm])
            [0..<pm_height pm]\<rparr>"

text \<open>Source-over composition of one pixel: an opaque source replaces the target.\<close>

definition source_over :: "qt \<Rightarrow> rgba \<Rightarrow> rgba \<Rightarrow> rgba" where
  "source_over q s d = (if alpha s = 255 then s else if alpha s = 0 then d else blend q s d)"

text \<open>\<^verbatim>\<open>painter.drawPixmap(pos, src)\<close>, clipped to the target.\<close>

definition drawPixmap :: "qt \<Rightarrow> point \<Rightarrow> pixmap \<Rightarrow> pixmap \<Rightarrow> pixmap" where
  "drawPixmap q pos src dst =
     repaint (\<lambda>p d.
        let rx = fst p - fst pos; ry = snd p - snd pos in
        if 0 \<le> rx \<and> rx < int (pm_width src) \<and> 0 \<le> ry \<and> ry < int (pm_height src)
        then source_over q (pixel src (rx, ry)) d else d) dst"

text \<open>\<^verbatim>\<open>painter.drawLine(p0, p1)\<close> with a pen of the given colour and width.\<close>

definition drawLine :: "qt \<Rightarrow> point \<Rightarrow> point \<Rightarrow> rgba \<Rightarrow> int \<Rightarrow> pixmap \<Rightarrow> pixmap" where
  "drawLine q p0 p1 c w dst = repaint (line_pixel q p0 p1 c w) dst"

section \<open>Pages and the notebook\<close>

text \<open>
  Pixmaps are objects: the undo and redo stacks and the pages hold references to them,
  and a painter mutates the object it is opened on. The model keeps them in a store, a
  list indexed by reference; \<^verbatim>\<open>copy()\<close> and \<^verbatim>\<open>QPixmap(w, h)\<close> allocate at its end.
  A page object is held by the list of pages only, so pages are values.
\<close>

type_synonym ref = nat

record page =
  canvas :: ref
  bg_image :: "string option"

datatype error = AttributeError | IndexError

datatype mouse_button = LeftButton | RightButton | MiddleButton

text \<open>
  The fields of \<^verbatim>\<open>Notebook\<close>. \<open>eraser_act_checked\<close> is the checked state of the eraser
  action; \<open>win_width\<close>, \<open>win_height\<close> and \<open>toolbar_height\<close> are what \<^verbatim>\<open>self.width()\<close>,
  \<^verbatim>\<open>self.height()\<close> and \<^verbatim>\<open>self.toolbar.geometry().height()\<close> return.
\<close>

record notebook =
  drawing :: bool
  last_point :: point
  pen_color :: rgba
  pen_width :: int
  eraser :: bool
  eyedropper :: bool
  floating_image :: "pixmap option"
  floating_pos :: point
  move_mode :: bool
  undo_stacks :: "int \<rightharpoonup> ref list"
  redo_stacks :: "int \<rightharpoonup> ref list"
  pages :: "page list"
  current_page_idx :: int
  canvas_top :: int
  eraser_act_checked :: bool
  store :: "pixmap list"
  win_width :: int
  win_height :: int
  toolbar_height :: int

definition alloc :: "pixmap \<Rightarrow> notebook \<Rightarrow> ref \<times> notebook" where
  "alloc pm st = (length (store st), st\<lparr>store := store st @ [pm]\<rparr>)"

text \<open>A painter opened on the pixmap at reference \<open>a\<close>.\<close>

definition paint :: "ref \<Rightarrow> (pixmap \<Rightarrow> pixmap) \<Rightarrow> notebook \<Rightarrow> notebook" where
  "paint a f st = st\<lparr>store := (store st)[a := f (store st ! a)]\<rparr>"

subsection \<open>Utility\<close>

definition page_of :: "notebook \<Rightarrow> page option" where
  "page_of st =
     (if 0 \<le> current_page_idx st \<and> current_page_idx st < int (length (pages st))
      then Some (pages st ! nat (current_page_idx st)) else None)"

definition size_of :: "notebook \<Rightarrow> page \<Rightarrow> int \<times> int" where
  "size_of st pg = (int (pm_width (store st ! canvas pg)), int (pm_height (store st ! canvas pg)))"

text \<open>\<^verbatim>\<open>drawing_rect\<close> records the toolbar height; its top left corner is \<open>(0, top)\<close>.\<close>

definition drawing_rect :: "notebook \<Rightarrow> point \<times> notebook" where
  "drawing_rect st = ((0, toolbar_height st), st\<lparr>canvas_top := toolbar_height st\<rparr>)"

definition in_canvas :: "notebook \<Rightarrow> point \<Rightarrow> bool" where
  "in_canvas st p =
     (case page_of st of None \<Rightarrow> False
      | Some pg \<Rightarrow> (let (w, h) = size_of st pg in
                    (0 \<le> fst p \<and> fst p < w) \<and> (0 \<le> snd p \<and> snd p < h)))"

subsection \<open>Undo and redo\<close>

definition setdefault :: "(int \<rightharpoonup> ref list) \<Rightarrow> int \<Rightarrow> (int \<rightharpoonup> ref list)" where
  "setdefault m i = (case m i of None \<Rightarrow> m(i \<mapsto> []) | Some s \<Rightarrow> m)"

definition ensure_stacks :: "notebook \<Rightarrow> notebook" where
  "ensure_stacks st =
     st\<lparr>undo_stacks := setdefault (undo_stacks st) (current_page_idx st),
        redo_stacks := setdefault (redo_stacks st) (current_page_idx st)\<rparr>"

text \<open>
  The stack of a key; every read below follows \<open>ensure_stacks\<close>, which has set the key
  (lemma \<open>stack_at_setdefault\<close>), so the \<^verbatim>\<open>KeyError\<close> of a missing key cannot occur.
\<close>

definition stack_at :: "(int \<rightharpoonup> ref list) \<Rightarrow> int \<Rightarrow> ref list" where
  "stack_at m i = (case m i of None \<Rightarrow> [] | Some s \<Rightarrow> s)"

definition snapshot :: "notebook \<Rightarrow> error + notebook" where
  "snapshot st =
     (let st1 = ensure_stacks st; i = current_page_idx st1 in
      case page_of st1 of
        None \<Rightarrow> Inl AttributeError
      | Some pg \<Rightarrow>
          let (a, st2) = alloc (store st1 ! canvas pg) st1 in
          Inr (st2\<lparr>undo_stacks := (undo_stacks st2)(i \<mapsto> stack_at (undo_stacks st2) i @ [a]),
                   redo_stacks := (redo_stacks st2)(i \<mapsto> [])\<rparr>))"

definition undo :: "notebook \<Rightarrow> error + notebook" where
  "undo st =
     (let st1 = ensure_stacks st; i = current_page_idx st1; u = stack_at (undo_stacks st1) i in
      if u = [] then Inr st1
      else case page_of st1 of
        None \<Rightarrow> Inl AttributeError
      | Some pg \<Rightarrow>
          let (current_copy, st2) = alloc (store st1 ! canvas pg) st1 in
          Inr (st2\<lparr>undo_stacks := (undo_stacks st2)(i \<mapsto> butlast u),
                   redo_stacks := (redo_stacks st2)(i \<mapsto> stack_at (redo_stacks st2) i @ [current_copy]),
                   pages := (pages st2)[nat i := pg\<lparr>canvas := last u\<rparr>]\<rparr>))"

definition redo :: "notebook \<Rightarrow> error + notebook" where
  "redo st =
     (let st1 = ensure_stacks st; i = current_page_idx st1; r = stack_at (redo_stacks st1) i in
      if r = [] then Inr st1
      else case page_of st1 of
        None \<Rightarrow> Inl AttributeError
      | Some pg \<Rightarrow>
          let (current_copy, st2) = alloc (store st1 ! canvas pg) st1 in
          Inr (st2\<lparr>redo_stacks := (redo_stacks st2)(i \<mapsto> butlast r),
                   undo_stacks := (undo_stacks st2)(i \<mapsto> stack_at (undo_stacks st2) i @ [current_copy]),
                   pages := (pages st2)[nat i := pg\<lparr>canvas := last r\<rparr>]\<rparr>))"

subsection \<open>Pages\<close>

text \<open>
  \<^verbatim>\<open>Page.set_background\<close>: the decoded image, scaled to the size of the canvas, is
  drawn at the origin, and the path is recorded. The page object is returned updated.
\<close>

definition Page_set_background :: "qt \<Rightarrow> string \<Rightarrow> page \<Rightarrow> notebook \<Rightarrow> page \<times> notebook" where
  "Page_set_background q image_path pg st =
     (let bg = scaled q (QPixmap_of_file q image_path)
                 (pm_width (store st ! canvas pg)) (pm_height (store st ! canvas pg))
      in (pg\<lparr>bg_image := Some image_path\<rparr>, paint (canvas pg) (drawPixmap q (0, 0) bg) st))"

text \<open>\<^verbatim>\<open>Page(w, h, bg_image=bg)\<close>; \<^verbatim>\<open>if bg_image:\<close> is false for \<^verbatim>\<open>None\<close> and for the empty string.\<close>

definition Page_init :: "qt \<Rightarrow> int \<Rightarrow> int \<Rightarrow> string option \<Rightarrow> notebook \<Rightarrow> page \<times> notebook" where
  "Page_init q w h bg st =
     (let (a, st1) = alloc (filled w h white) st;
          pg = \<lparr>canvas = a, bg_image = None\<rparr>
      in case bg of
           None \<Rightarrow> (pg, st1)
         | Some path \<Rightarrow> if path = [] then (pg, st1) else Page_set_background q path pg st1)"

text \<open>
  \<^verbatim>\<open>update_page_list\<close> rebuilds the list widget and selects the current row; the
  \<^verbatim>\<open>change_page\<close> calls this triggers are for row \<open>-1\<close> (ignored) and for the current
  index (no change), so it leaves the fields of the model as they are.
\<close>

definition add_page :: "qt \<Rightarrow> notebook \<Rightarrow> error + notebook" where
  "add_page q st =
     (let top = toolbar_height st;
          w = max 200 (win_width st);
          h = max 200 (win_height st - top);
          bg = (case page_of st of None \<Rightarrow> None | Some pg \<Rightarrow> bg_image pg);
          (pg, st1) = Page_init q w h bg st;
          st2 = st1\<lparr>pages := pages st1 @ [pg]\<rparr>;
          st3 = st2\<lparr>current_page_idx := int (length (pages st2)) - 1\<rparr>
      in snapshot (ensure_stacks st3))"

text \<open>
  \<^verbatim>\<open>list.pop(idx)\<close> counts a negative index from the end and raises \<^verbatim>\<open>IndexError\<close>
  out of range; \<^verbatim>\<open>dict.pop(idx, None)\<close> removes the key when it is there.
\<close>

definition delete_current_page :: "notebook \<Rightarrow> error + notebook" where
  "delete_current_page st =
     (if pages st = [] then Inr st
      else
        let idx = current_page_idx st; n = int (length (pages st)) in
        if idx < - n \<or> n \<le> idx then Inl IndexError
        else
          let k = nat (if idx < 0 then idx + n else idx);
              ps = take k (pages st) @ drop (Suc k) (pages st)
          in Inr (st\<lparr>pages := ps,
                     undo_stacks := (undo_stacks st)(idx := None),
                     redo_stacks := (redo_stacks st)(idx := None),
                     current_page_idx := (if ps = [] then - 1 else max 0 (idx - 1))\<rparr>))"

definition change_page :: "int \<Rightarrow> notebook \<Rightarrow> notebook" where
  "change_page idx st =
     (if 0 \<le> idx \<and> idx < int (length (pages st)) then st\<lparr>current_page_idx := idx\<rparr> else st)"

subsection \<open>Actions\<close>

definition set_pen_color :: "rgba \<Rightarrow> notebook \<Rightarrow> notebook" where
  "set_pen_color c st =
     st\<lparr>pen_color := c, eraser := False, eraser_act_checked := False, eyedropper := False\<rparr>"

definition enable_eyedropper :: "notebook \<Rightarrow> notebook" where
  "enable_eyedropper st = st\<lparr>eyedropper := True, eraser := False, eraser_act_checked := False\<rparr>"

text \<open>
  The eraser action is checkable: a click toggles its checked state and passes the new
  state to \<^verbatim>\<open>toggle_eraser\<close>; the shortcut does the same by hand.
\<close>

definition toggle_eraser :: "bool \<Rightarrow> notebook \<Rightarrow> notebook" where
  "toggle_eraser checked st =
     (let st1 = st\<lparr>eraser := checked\<rparr> in if checked then st1\<lparr>eyedropper := False\<rparr> else st1)"

definition toggle_eraser_shortcut :: "notebook \<Rightarrow> notebook" where
  "toggle_eraser_shortcut st =
     (let st1 = st\<lparr>eraser_act_checked := \<not> eraser_act_checked st\<rparr>
      in toggle_eraser (eraser_act_checked st1) st1)"

text \<open>\<open>fname\<close> is what the file dialog returns: the empty string when it is cancelled.\<close>

definition set_background_image :: "qt \<Rightarrow> string \<Rightarrow> notebook \<Rightarrow> error + notebook" where
  "set_background_image q fname st =
     (if fname \<noteq> [] \<and> page_of st \<noteq> None then
        case snapshot st of
          Inl e \<Rightarrow> Inl e
        | Inr st1 \<Rightarrow>
            (case page_of st1 of
               None \<Rightarrow> Inl AttributeError
             | Some pg \<Rightarrow>
                 let (pg', st2) = Page_set_background q fname pg st1
                 in Inr (st2\<lparr>pages := (pages st2)[nat (current_page_idx st2) := pg']\<rparr>))
      else Inr st)"

text \<open>
  \<open>cb_pixmap\<close> and \<open>cb_image\<close> are what the clipboard returns for \<^verbatim>\<open>pixmap()\<close> and
  \<^verbatim>\<open>image()\<close>; the warning box of the empty clipboard changes no field.
\<close>

definition paste_image :: "pixmap \<Rightarrow> pixmap \<Rightarrow> notebook \<Rightarrow> notebook" where
  "paste_image cb_pixmap cb_image st =
     (if isNull cb_pixmap \<and> isNull cb_image then st
      else
        let pm = (if isNull cb_pixmap then cb_image else cb_pixmap) in
        case page_of st of
          None \<Rightarrow> st
        | Some pg \<Rightarrow>
            let (w, h) = size_of st pg;
                fx = max 0 ((w - int (pm_width pm)) div 2);
                fy = max 0 ((h - int (pm_height pm)) div 2)
            in st\<lparr>floating_image := Some pm, floating_pos := (fx, fy), move_mode := True\<rparr>)"

definition toggle_move_mode :: "qt \<Rightarrow> notebook \<Rightarrow> error + notebook" where
  "toggle_move_mode q st =
     (case floating_image st of
        None \<Rightarrow> Inr st
      | Some fi \<Rightarrow>
          if move_mode st then
            case snapshot st of
              Inl e \<Rightarrow> Inl e
            | Inr st1 \<Rightarrow>
                (case page_of st1 of
                   None \<Rightarrow> Inl AttributeError
                 | Some pg \<Rightarrow>
                     Inr ((paint (canvas pg) (drawPixmap q (floating_pos st1) fi) st1)
                            \<lparr>floating_image := None, move_mode := False\<rparr>))
          else Inr (st\<lparr>move_mode := True\<rparr>))"

subsection \<open>Events\<close>

text \<open>
  A mouse event carries the button pressed or released and the position in the window.
  \<open>inside_floating\<close> is the test of \<^verbatim>\<open>mousePressEvent\<close> that starts a drag: there is
  a floating image, move mode is on, and the point is inside the image.
\<close>

definition inside_floating :: "notebook \<Rightarrow> point \<Rightarrow> bool" where
  "inside_floating st local =
     (case floating_image st of
        None \<Rightarrow> False
      | Some fi \<Rightarrow>
          move_mode st \<and>
          (let rel = (fst local - fst (floating_pos st), snd local - snd (floating_pos st))
           in 0 \<le> fst rel \<and> fst rel < int (pm_width fi) \<and>
              0 \<le> snd rel \<and> snd rel < int (pm_height fi)))"

definition mousePressEvent :: "mouse_button \<Rightarrow> point \<Rightarrow> notebook \<Rightarrow> error + notebook" where
  "mousePressEvent button pos st0 =
     (let (topLeft, st) = drawing_rect st0;
          local = (fst pos - fst topLeft, snd pos - snd topLeft)
      in
      if button = LeftButton then
        if inside_floating st local then Inr (st\<lparr>drawing := True, last_point := local\<rparr>)
        else if \<not> in_canvas st local then Inr st
        else
          case page_of st of
            None \<Rightarrow> Inr st
          | Some pg \<Rightarrow>
              if eyedropper st then
                Inr ((set_pen_color (QColor (pixel (store st ! canvas pg) local)) st)
                       \<lparr>eyedropper := False\<rparr>)
              else if floating_image st = None \<and> \<not> move_mode st then
                snapshot (st\<lparr>drawing := True, last_point := local\<rparr>)
              else Inr st
      else Inr st)"

text \<open>
  The first branch of \<^verbatim>\<open>mouseMoveEvent\<close>: the floating image follows the pointer and
  is clamped to the canvas.
\<close>

definition drag_floating :: "pixmap \<Rightarrow> point \<Rightarrow> page \<Rightarrow> notebook \<Rightarrow> notebook" where
  "drag_floating fi local pg st =
     (let delta = (fst local - fst (last_point st), snd local - snd (last_point st));
          moved = (fst (floating_pos st) + fst delta, snd (floating_pos st) + snd delta);
          (w, h) = size_of st pg
      in st\<lparr>floating_pos :=
               (max 0 (min (fst moved) (w - int (pm_width fi))),
                max 0 (min (snd moved) (h - int (pm_height fi)))),
             last_point := local\<rparr>)"

text \<open>
  The second branch: a segment of the stroke is drawn on the canvas of the page.
  \<open>left_held\<close> is \<^verbatim>\<open>event.buttons() & Qt.LeftButton\<close>.
\<close>

definition draw_segment :: "qt \<Rightarrow> bool \<Rightarrow> point \<Rightarrow> page \<Rightarrow> notebook \<Rightarrow> notebook" where
  "draw_segment q left_held local pg st =
     (if drawing st \<and> left_held \<and> floating_image st = None \<and> \<not> move_mode st then
        if \<not> in_canvas st local then st
        else
          let color = (if eraser st then white else pen_color st) in
          (paint (canvas pg) (drawLine q (last_point st) local color (pen_width st)) st)
            \<lparr>last_point := local\<rparr>
      else st)"

definition mouseMoveEvent :: "qt \<Rightarrow> bool \<Rightarrow> point \<Rightarrow> notebook \<Rightarrow> notebook" where
  "mouseMoveEvent q left_held pos st0 =
     (let (topLeft, st) = drawing_rect st0;
          local = (fst pos - fst topLeft, snd pos - snd topLeft)
      in
      case page_of st of
        None \<Rightarrow> st
      | Some pg \<Rightarrow>
          (case floating_image st of
             Some fi \<Rightarrow>
               if move_mode st \<and> drawing st then drag_floating fi local pg st
               else draw_segment q left_held local pg st
           | None \<Rightarrow> draw_segment q left_held local pg st))"

definition mouseReleaseEvent :: "mouse_button \<Rightarrow> notebook \<Rightarrow> notebook" where
  "mouseReleaseEvent button st = (if button = LeftButton then st\<lparr>drawing := False\<rparr> else st)"

text \<open>The window and its toolbar are resized from outside; the slider sets the pen width.\<close>

definition resizeEvent :: "int \<Rightarrow> int \<Rightarrow> int \<Rightarrow> notebook \<Rightarrow> notebook" where
  "resizeEvent w h tb st = st\<lparr>win_width := w, win_height := h, toolbar_height := tb\<rparr>"

definition set_pen_width :: "int \<Rightarrow> notebook \<Rightarrow> notebook" where
  "set_pen_width v st = st\<lparr>pen_width := v\<rparr>"

subsection \<open>The application\<close>

text \<open>
  \<^verbatim>\<open>Notebook.__init__\<close>: the fields, a window of 1200 by 800, and the first page.
  \<open>tb\<close> is the height of the toolbar when the first page is made.
\<close>

definition fresh :: "int \<Rightarrow> notebook" where
  "fresh tb =
     \<lparr>drawing = False, last_point = (0, 0), pen_color = black, pen_width = 5,
      eraser = False, eyedropper = False,
      floating_image = None, floating_pos = (100, 100), move_mode = False,
      undo_stacks = Map.empty, redo_stacks = Map.empty,
      pages = [], current_page_idx = - 1,
      canvas_top = 0, eraser_act_checked = False, store = [],
      win_width = 1200, win_height = 800, toolbar_height = tb\<rparr>"

definition Notebook_init :: "qt \<Rightarrow> int \<Rightarrow> error + notebook" where
  "Notebook_init q tb = add_page q (fresh tb)"

text \<open>
  What the user can do: the shortcuts, the toolbar, the page panel and the mouse.
  \<open>ToggleEraser\<close> carries the new checked state of the eraser action. Exporting to
  PDF reads the pages and changes no field; it is left out.
\<close>

datatype event =
    Undo | Redo | AddPage | DeletePage | ChangePage int
  | SetPenColor rgba | EnableEyedropper | ToggleEraser bool | ToggleEraserShortcut
  | SetPenWidth int | SetBackgroundImage string | PasteImage pixmap pixmap | ToggleMoveMode
  | MousePress mouse_button point | MouseMove bool point | MouseRelease mouse_button
  | Resize int int int

fun fire :: "qt \<Rightarrow> event \<Rightarrow> notebook \<Rightarrow> error + notebook" where
  "fire q Undo st = undo st"
| "fire q Redo st = redo st"
| "fire q AddPage st = add_page q st"
| "fire q DeletePage st = delete_current_page st"
| "fire q (ChangePage idx) st = Inr (change_page idx st)"
| "fire q (SetPenColor c) st = Inr (set_pen_color c st)"
| "fire q EnableEyedropper st = Inr (enable_eyedropper st)"
| "fire q (ToggleEraser checked) st = Inr (toggle_eraser checked (st\<lparr>eraser_act_checked := checked\<rparr>))"
| "fire q ToggleEraserShortcut st = Inr (toggle_eraser_shortcut st)"
| "fire q (SetPenWidth v) st = Inr (set_pen_width v st)"
| "fire q (SetBackgroundImage fname) st = set_background_image q fname st"
| "fire q (PasteImage cb_pixmap cb_image) st = Inr (paste_image cb_pixmap cb_image st)"
| "fire q ToggleMoveMode st = toggle_move_mode q st"
| "fire q (MousePress button pos) st = mousePressEvent button pos st"
| "fire q (MouseMove left_held pos) st = Inr (mouseMoveEvent q left_held pos st)"
| "fire q (MouseRelease button) st = Inr (mouseReleaseEvent button st)"
| "fire q (Resize w h tb) st = Inr (resizeEvent w h tb st)"

text \<open>The states the application can be in: an exception ends the run.\<close>

inductive reachable :: "qt \<Rightarrow> notebook \<Rightarrow> bool" for q :: qt where
  reachable_init: "Notebook_init q tb = Inr st \<Longrightarrow> reachable q st"
| reachable_step: "reachable q st \<Longrightarrow> fire q ev st = Inr st' \<Longrightarrow> reachable q st'"

text \<open>A run of events, and a handler called \<open>n\<close> times; both stop at the first exception.\<close>

fun run :: "qt \<Rightarrow> event list \<Rightarrow> notebook \<Rightarrow> error + notebook" where
  "run q [] st = Inr st"
| "run q (ev # evs) st = (case fire q ev st of Inl e \<Rightarrow> Inl e | Inr st' \<Rightarrow> run q evs st')"

fun times :: "nat \<Rightarrow> (notebook \<Rightarrow> error + notebook) \<Rightarrow> notebook \<Rightarrow> error + notebook" where
  "times 0 f st = Inr st"
| "times (Suc n) f st = (case f st of Inl e \<Rightarrow> Inl e | Inr st' \<Rightarrow> times n f st')"

text \<open>The live buffer: the pixmap the canvas of the current page refers to.\<close>

definition buffer :: "notebook \<Rightarrow> pixmap option" where
  "buffer st = (case page_of st of None \<Rightarrow> None | Some pg \<Rightarrow> Some (store st ! canvas pg))"

text \<open>The pointer moves of one drag, in order: each is a \<^verbatim>\<open>mouseMoveEvent\<close>.\<close>

fun mouse_moves :: "qt \<Rightarrow> (bool \<times> point) list \<Rightarrow> notebook \<Rightarrow> notebook" where
  "mouse_moves q [] st = st"
| "mouse_moves q (m # ms) st = mouse_moves q ms (mouseMoveEvent q (fst m) (snd m) st)"

section \<open>References to pixmaps\<close>

text \<open>
  The places of the notebook that hold a reference to a pixmap: the canvas of the page
  at a position, and the entries of the undo and redo stacks of a key.
\<close>

datatype slot = CanvasOf nat | UndoAt int nat | RedoAt int nat

fun slot_ref :: "notebook \<Rightarrow> slot \<Rightarrow> ref option" where
  "slot_ref st (CanvasOf p) =
     (if p < length (pages st) then Some (canvas (pages st ! p)) else None)"
| "slot_ref st (UndoAt i k) =
     (case undo_stacks st i of
        None \<Rightarrow> None
      | Some u \<Rightarrow> if k < length u then Some (u ! k) else None)"
| "slot_ref st (RedoAt i k) =
     (case redo_stacks st i of
        None \<Rightarrow> None
      | Some r \<Rightarrow> if k < length r then Some (r ! k) else None)"

text \<open>
  No sharing: every reference held is allocated, and no two places hold the same
  reference. The snapshots are the references held by the stacks.
\<close>

definition heap_ok :: "notebook \<Rightarrow> bool" where
  "heap_ok st =
     ((\<forall>s a. slot_ref st s = Some a \<longrightarrow> a < length (store st)) \<and>
      (\<forall>s s' a. slot_ref st s = Some a \<and> slot_ref st s' = Some a \<longrightarrow> s = s'))"

definition snapshots :: "notebook \<Rightarrow> ref set" where
  "snapshots st =
     {a. \<exists>i k. slot_ref st (UndoAt i k) = Some a \<or> slot_ref st (RedoAt i k) = Some a}"

text \<open>The pixmaps on the undo and redo stacks of the current page, oldest first.\<close>

definition undo_view :: "notebook \<Rightarrow> pixmap list" where
  "undo_view st = map (\<lambda>a. store st ! a) (stack_at (undo_stacks st) (current_page_idx st))"

definition redo_view :: "notebook \<Rightarrow> pixmap list" where
  "redo_view st = map (\<lambda>a. store st ! a) (stack_at (redo_stacks st) (current_page_idx st))"

section \<open>Destructive operations\<close>

text \<open>
  The operations of the notebook that change the buffer of the current page, each
  after one snapshot: stamping the floating image, setting a background image, and a
  stroke (a press of the left button that starts drawing, pointer moves, the release).
  \<open>edits q n st st'\<close>: \<open>n\<close> of them in a row lead from \<open>st\<close> to \<open>st'\<close>.
\<close>

inductive destructive_op :: "qt \<Rightarrow> notebook \<Rightarrow> notebook \<Rightarrow> bool" for q :: qt where
  stamp:
    "floating_image st \<noteq> None \<Longrightarrow> move_mode st \<Longrightarrow>
     toggle_move_mode q st = Inr st' \<Longrightarrow> destructive_op q st st'"
| background:
    "fname \<noteq> [] \<Longrightarrow> page_of st \<noteq> None \<Longrightarrow>
     set_background_image q fname st = Inr st' \<Longrightarrow> destructive_op q st st'"
| stroke:
    "in_canvas st (fst pos, snd pos - toolbar_height st) \<Longrightarrow>
     \<not> eyedropper st \<Longrightarrow> floating_image st = None \<Longrightarrow> \<not> move_mode st \<Longrightarrow>
     mousePressEvent LeftButton pos st = Inr st1 \<Longrightarrow>
     st' = mouseReleaseEvent LeftButton (mouse_moves q ms st1) \<Longrightarrow>
     destructive_op q st st'"

inductive edits :: "qt \<Rightarrow> nat \<Rightarrow> notebook \<Rightarrow> notebook \<Rightarrow> bool" for q :: qt where
  edits_none: "edits q 0 st st"
| edits_more: "edits q n st st1 \<Longrightarrow> destructive_op q st1 st2 \<Longrightarrow> edits q (Suc n) st st2"

section \<open>Values the properties are evaluated on\<close>

text \<open>
  A Qt in which no file decodes, scaling changes nothing, and a line is so wide that it
  gives every pixel of its target the colour of the pen.
\<close>

definition qt0 :: qt where
  "qt0 = \<lparr>load_image = (\<lambda>path. None), smooth_scaled = (\<lambda>pm w h. pm),
           line_pixel = (\<lambda>p0 p1 c w p d. c), blend = (\<lambda>s d. s)\<rparr>"

text \<open>
  A notebook with one white page of 100 by 100 and the snapshot its creation pushed,
  and a red image of 20 by 20.
\<close>

definition board :: notebook where
  "board =
     (fresh 0)\<lparr>pages := [\<lparr>canvas = 0, bg_image = None\<rparr>], current_page_idx := 0,
               store := [filled 100 100 white, filled 100 100 white],
               undo_stacks := [0 \<mapsto> [1]], redo_stacks := [0 \<mapsto> []]\<rparr>"

definition sticker :: pixmap where
  "sticker = filled 20 20 red"

text \<open>
  The application started with a toolbar of height 30; two pages are added, a stroke
  is started on the second page (index 1), and the first page is selected.
\<close>

definition three_pages :: "error + notebook" where
  "three_pages =
     (case Notebook_init qt0 30 of
        Inl e \<Rightarrow> Inl e
      | Inr st \<Rightarrow>
          run qt0 [AddPage, AddPage, ChangePage 1, MousePress LeftButton (10, 40),
                   MouseRelease LeftButton, ChangePage 0] st)"

text \<open>The application started with a toolbar of height 30, and a stroke started.\<close>

definition stroke_started :: "error + notebook" where
  "stroke_started =
     (case Notebook_init qt0 30 of
        Inl e \<Rightarrow> Inl e
      | Inr st \<Rightarrow> run qt0 [MousePress LeftButton (10, 40)] st)"

text \<open>
  The spec's word "centered", for an image of \<open>ow\<close> by \<open>oh\<close> on a page of \<open>pw\<close> by
  \<open>ph\<close>: the margins on both sides of an axis are equal, rounded down.
\<close>

definition centered_pos :: "int \<Rightarrow> int \<Rightarrow> int \<Rightarrow> int \<Rightarrow> point" where
  "centered_pos pw ph ow oh = ((pw - ow) div 2, (ph - oh) div 2)"

section \<open>Basic facts\<close>

lemma pm_width_filled: "0 < w \<Longrightarrow> 0 < h \<Longrightarrow> pm_width (filled w h c) = nat w"
  by (simp add: filled_def)

lemma pm_height_filled: "0 < w \<Longrightarrow> 0 < h \<Longrightarrow> pm_height (filled w h c) = nat h"
  by (simp add: filled_def)

lemma pixel_filled:
  assumes "0 \<le> x" "x < w" "0 \<le> y" "y < h"
  shows "pixel (filled w h c) (x, y) = c"
proof -
  have "nat x < nat w" "nat y < nat h" using assms by auto
  then show ?thesis using assms by (simp add: pixel_def filled_def)
qed

lemma pixel_repaint:
  assumes "0 \<le> x" "x < int (pm_width pm)" "0 \<le> y" "y < int (pm_height pm)"
  shows "pixel (repaint f pm) (x, y) = f (x, y) (pixel pm (x, y))"
proof -
  have "nat x < pm_width pm" "nat y < pm_height pm" using assms by auto
  then show ?thesis using assms by (simp add: pixel_def repaint_def)
qed

lemma size_repaint [simp]:
  "pm_width (repaint f pm) = pm_width pm" "pm_height (repaint f pm) = pm_height pm"
  by (simp_all add: repaint_def)

lemma page_of_upd [simp]:
  "page_of (st\<lparr>canvas_top := t\<rparr>) = page_of st"
  "page_of (st\<lparr>drawing := d\<rparr>) = page_of st"
  "page_of (st\<lparr>last_point := lp\<rparr>) = page_of st"
  "page_of (st\<lparr>floating_pos := fp\<rparr>) = page_of st"
  "page_of (st\<lparr>floating_image := fi\<rparr>) = page_of st"
  "page_of (st\<lparr>move_mode := mm\<rparr>) = page_of st"
  "page_of (st\<lparr>store := sto\<rparr>) = page_of st"
  "page_of (st\<lparr>undo_stacks := us\<rparr>) = page_of st"
  "page_of (st\<lparr>redo_stacks := rs\<rparr>) = page_of st"
  "page_of (st\<lparr>pen_color := c\<rparr>) = page_of st"
  "page_of (st\<lparr>pen_width := pw\<rparr>) = page_of st"
  "page_of (st\<lparr>eraser := e\<rparr>) = page_of st"
  "page_of (st\<lparr>eyedropper := e\<rparr>) = page_of st"
  "page_of (st\<lparr>eraser_act_checked := e\<rparr>) = page_of st"
  "page_of (st\<lparr>win_width := ww\<rparr>) = page_of st"
  "page_of (st\<lparr>win_height := wh\<rparr>) = page_of st"
  "page_of (st\<lparr>toolbar_height := th\<rparr>) = page_of st"
  by (simp_all add: page_of_def)

lemma page_of_ensure_stacks [simp]: "page_of (ensure_stacks st) = page_of st"
  by (simp add: ensure_stacks_def)

lemma page_of_paint [simp]: "page_of (paint a f st) = page_of st"
  by (simp add: paint_def)

lemma in_canvas_canvas_top [simp]: "in_canvas (st\<lparr>canvas_top := t\<rparr>) p = in_canvas st p"
  by (simp add: in_canvas_def size_of_def split: option.splits)

lemma inside_floating_canvas_top [simp]:
  "inside_floating (st\<lparr>canvas_top := t\<rparr>) p = inside_floating st p"
  by (simp add: inside_floating_def split: option.splits)

lemma setdefault_upd [simp]: "(setdefault m i)(i \<mapsto> v) = m(i \<mapsto> v)"
  by (simp add: setdefault_def split: option.splits)

lemma stack_at_setdefault [simp]: "stack_at (setdefault m i) i = stack_at m i"
  by (simp add: setdefault_def stack_at_def split: option.splits)

lemma setdefault_idem: "m i = Some s \<Longrightarrow> setdefault m i = m"
  by (simp add: setdefault_def)

lemma ensure_stacks_idem:
  "undo_stacks st (current_page_idx st) = Some u \<Longrightarrow>
   redo_stacks st (current_page_idx st) = Some r \<Longrightarrow> ensure_stacks st = st"
  by (simp add: ensure_stacks_def setdefault_idem)

text \<open>With a current page, \<open>snapshot\<close> returns: the copy is allocated and pushed.\<close>

lemma snapshot_page:
  assumes "page_of st = Some pg"
  shows "snapshot st =
     Inr (st\<lparr>store := store st @ [store st ! canvas pg],
             undo_stacks := (undo_stacks st)(current_page_idx st \<mapsto>
                 stack_at (undo_stacks st) (current_page_idx st) @ [length (store st)]),
             redo_stacks := (redo_stacks st)(current_page_idx st \<mapsto> [])\<rparr>)"
  using assms by (simp add: snapshot_def Let_def alloc_def) (simp add: ensure_stacks_def)

lemma snapshot_no_page: "page_of st = None \<Longrightarrow> snapshot st = Inl AttributeError"
  by (simp add: snapshot_def Let_def)

lemma snapshot_Inr_page: "snapshot st = Inr st1 \<Longrightarrow> \<exists>pg. page_of st = Some pg"
  by (cases "page_of st") (simp_all add: snapshot_no_page)

lemma page_of_board: "page_of board = Some \<lparr>canvas = 0, bg_image = None\<rparr>"
  by (simp add: page_of_def board_def fresh_def)

lemma store_board:
  "store board ! 0 = filled 100 100 white" "length (store board) = 2"
  by (simp_all add: board_def fresh_def)

text \<open>The state after \<^verbatim>\<open>__init__\<close>: one white page and the snapshot of its creation.\<close>

lemma Notebook_init_eq:
  "Notebook_init q tb =
     Inr ((fresh tb)\<lparr>store := [filled 1200 (max 200 (800 - tb)) white,
                               filled 1200 (max 200 (800 - tb)) white],
                     pages := [\<lparr>canvas = 0, bg_image = None\<rparr>], current_page_idx := 0,
                     undo_stacks := [0 \<mapsto> [1]], redo_stacks := [0 \<mapsto> []]\<rparr>)"
  by (simp add: Notebook_init_def add_page_def Page_init_def alloc_def Let_def page_of_def
      snapshot_def ensure_stacks_def setdefault_def stack_at_def fresh_def)

lemma run_reachable:
  "reachable q st \<Longrightarrow> run q evs st = Inr st' \<Longrightarrow> reachable q st'"
proof (induction evs arbitrary: st)
  case Nil
  then show ?case by simp
next
  case (Cons ev evs)
  then show ?case
    by (cases "fire q ev st") (auto intro: reachable_step)
qed

lemma stroke_started_eq:
  "stroke_started =
     Inr ((fresh 30)\<lparr>store := replicate 3 (filled 1200 770 white),
                     pages := [\<lparr>canvas = 0, bg_image = None\<rparr>], current_page_idx := 0,
                     undo_stacks := [0 \<mapsto> [1, 2]], redo_stacks := [0 \<mapsto> []],
                     canvas_top := 30, drawing := True, last_point := (10, 10)\<rparr>)"
  by (simp add: stroke_started_def Notebook_init_eq Let_def
      page_of_def snapshot_def alloc_def ensure_stacks_def setdefault_def stack_at_def fresh_def
      mousePressEvent_def drawing_rect_def inside_floating_def in_canvas_def
      size_of_def pm_width_filled pm_height_filled numeral_eq_Suc)

lemma stroke_started_reachable: "reachable qt0 (projr stroke_started)"
proof -
  have i: "Notebook_init qt0 30 = Inr (projr (Notebook_init qt0 30))"
    by (simp add: Notebook_init_eq)
  then have r: "reachable qt0 (projr (Notebook_init qt0 30))" by (rule reachable_init)
  have "run qt0 [MousePress LeftButton (10, 40)] (projr (Notebook_init qt0 30))
        = Inr (projr stroke_started)"
    using stroke_started_eq i
    by (metis (no_types, lifting) stroke_started_def sum.case(2) sum.sel(2))
  with r show ?thesis by (rule run_reachable)
qed

section \<open>No two places share a pixmap\<close>

lemma slot_ref_cong:
  assumes "map canvas (pages st') = map canvas (pages st)"
    and "undo_stacks st' = undo_stacks st" and "redo_stacks st' = redo_stacks st"
  shows "slot_ref st' s = slot_ref st s"
proof (cases s)
  case (CanvasOf p)
  have "length (pages st') = length (pages st)"
    using assms(1) by (metis length_map)
  moreover have "canvas (pages st' ! p) = canvas (pages st ! p)" if "p < length (pages st)"
    using assms(1) that by (metis \<open>length (pages st') = length (pages st)\<close> nth_map)
  ultimately show ?thesis using CanvasOf by simp
qed (simp_all add: assms)

lemma heap_ok_cong:
  assumes "heap_ok st" and "map canvas (pages st') = map canvas (pages st)"
    and "undo_stacks st' = undo_stacks st" and "redo_stacks st' = redo_stacks st"
    and "length (store st) \<le> length (store st')"
  shows "heap_ok st'"
proof -
  have "slot_ref st' = slot_ref st"
    using slot_ref_cong[OF assms(2-4)] by (rule ext)
  then show ?thesis using assms(1,5) unfolding heap_ok_def by fastforce
qed

text \<open>
  The rule for a step: every place of the new state either holds a reference allocated
  by the step (the places \<open>F\<close>), or holds what the place \<open>g s\<close> held before.
\<close>

lemma heap_okI:
  assumes ok: "heap_ok st" and len: "length (store st) \<le> length (store st')"
    and old: "\<And>s a. slot_ref st' s = Some a \<Longrightarrow> s \<notin> F \<Longrightarrow> slot_ref st (g s) = Some a"
    and new: "\<And>s a. slot_ref st' s = Some a \<Longrightarrow> s \<in> F \<Longrightarrow>
                length (store st) \<le> a \<and> a < length (store st')"
    and inj: "\<And>s s'. s \<notin> F \<Longrightarrow> s' \<notin> F \<Longrightarrow> slot_ref st' s \<noteq> None \<Longrightarrow>
                slot_ref st' s' \<noteq> None \<Longrightarrow> g s = g s' \<Longrightarrow> s = s'"
    and newinj: "\<And>s s' a. s \<in> F \<Longrightarrow> s' \<in> F \<Longrightarrow> slot_ref st' s = Some a \<Longrightarrow>
                slot_ref st' s' = Some a \<Longrightarrow> s = s'"
  shows "heap_ok st'"
  unfolding heap_ok_def
proof (intro conjI allI impI)
  fix s a
  assume h: "slot_ref st' s = Some a"
  show "a < length (store st')"
  proof (cases "s \<in> F")
    case True
    then show ?thesis using new[OF h] by simp
  next
    case False
    from old[OF h False] ok have "a < length (store st)" unfolding heap_ok_def by blast
    then show ?thesis using len by simp
  qed
next
  fix s s' a
  assume h: "slot_ref st' s = Some a \<and> slot_ref st' s' = Some a"
  show "s = s'"
  proof (cases "s \<in> F"; cases "s' \<in> F")
    assume "s \<in> F" "s' \<in> F"
    then show ?thesis using newinj h by blast
  next
    assume a: "s \<in> F" "s' \<notin> F"
    from old[of s' a] h a ok have "a < length (store st)" unfolding heap_ok_def by blast
    moreover from new[of s a] h a have "length (store st) \<le> a" by blast
    ultimately show ?thesis by simp
  next
    assume a: "s \<notin> F" "s' \<in> F"
    from old[of s a] h a ok have "a < length (store st)" unfolding heap_ok_def by blast
    moreover from new[of s' a] h a have "length (store st) \<le> a" by blast
    ultimately show ?thesis by simp
  next
    assume a: "s \<notin> F" "s' \<notin> F"
    from old[of s a] old[of s' a] h a have "slot_ref st (g s) = Some a" "slot_ref st (g s') = Some a"
      by blast+
    with ok have "g s = g s'" unfolding heap_ok_def by blast
    with inj[of s s'] a h show ?thesis by auto
  qed
qed

lemma heap_ok_snapshot:
  assumes "heap_ok st" and "snapshot st = Inr st'"
  shows "heap_ok st'"
proof -
  from assms(2) obtain pg where pg: "page_of st = Some pg"
    using snapshot_Inr_page by blast
  define i where "i = current_page_idx st"
  define u where "u = stack_at (undo_stacks st) i"
  have st': "st' = st\<lparr>store := store st @ [store st ! canvas pg],
                       undo_stacks := (undo_stacks st)(i \<mapsto> u @ [length (store st)]),
                       redo_stacks := (redo_stacks st)(i \<mapsto> [])\<rparr>"
    using assms(2) snapshot_page[OF pg] by (simp add: i_def u_def)
  show ?thesis
  proof (rule heap_okI[OF assms(1), where g = id and F = "{UndoAt i (length u)}"])
    show "length (store st) \<le> length (store st')" by (simp add: st')
  next
    fix s a
    assume "slot_ref st' s = Some a" "s \<notin> {UndoAt i (length u)}"
    then show "slot_ref st (id s) = Some a"
      by (cases s) (auto simp: st' u_def stack_at_def nth_append split: if_splits option.splits)
  next
    fix s a
    assume "slot_ref st' s = Some a" "s \<in> {UndoAt i (length u)}"
    then show "length (store st) \<le> a \<and> a < length (store st')"
      by (auto simp: st')
  qed auto
qed

lemma slot_ref_ensure_stacks [simp]: "slot_ref (ensure_stacks st) s = slot_ref st s"
  by (cases s) (auto simp: ensure_stacks_def setdefault_def split: option.splits)

lemma store_ensure_stacks [simp]: "store (ensure_stacks st) = store st"
  by (simp add: ensure_stacks_def)

lemma heap_ok_ensure_stacks [simp]: "heap_ok (ensure_stacks st) = heap_ok st"
  by (simp add: heap_ok_def)

lemma undo_empty:
  "stack_at (undo_stacks st) (current_page_idx st) = [] \<Longrightarrow> undo st = Inr (ensure_stacks st)"
  by (simp add: undo_def Let_def) (simp add: ensure_stacks_def)

lemma undo_page:
  assumes "page_of st = Some pg" and "stack_at (undo_stacks st) (current_page_idx st) \<noteq> []"
  shows "undo st =
     Inr (st\<lparr>store := store st @ [store st ! canvas pg],
             undo_stacks := (undo_stacks st)(current_page_idx st \<mapsto>
                 butlast (stack_at (undo_stacks st) (current_page_idx st))),
             redo_stacks := (redo_stacks st)(current_page_idx st \<mapsto>
                 stack_at (redo_stacks st) (current_page_idx st) @ [length (store st)]),
             pages := (pages st)[nat (current_page_idx st) :=
                 pg\<lparr>canvas := last (stack_at (undo_stacks st) (current_page_idx st))\<rparr>]\<rparr>)"
  using assms by (simp add: undo_def Let_def alloc_def) (simp add: ensure_stacks_def)

lemma undo_no_page:
  "page_of st = None \<Longrightarrow> stack_at (undo_stacks st) (current_page_idx st) \<noteq> [] \<Longrightarrow>
     undo st = Inl AttributeError"
  by (simp add: undo_def Let_def) (simp add: ensure_stacks_def)

lemma redo_no_page:
  "page_of st = None \<Longrightarrow> stack_at (redo_stacks st) (current_page_idx st) \<noteq> [] \<Longrightarrow>
     redo st = Inl AttributeError"
  by (simp add: redo_def Let_def) (simp add: ensure_stacks_def)

lemma redo_empty:
  "stack_at (redo_stacks st) (current_page_idx st) = [] \<Longrightarrow> redo st = Inr (ensure_stacks st)"
  by (simp add: redo_def Let_def) (simp add: ensure_stacks_def)

lemma redo_page:
  assumes "page_of st = Some pg" and "stack_at (redo_stacks st) (current_page_idx st) \<noteq> []"
  shows "redo st =
     Inr (st\<lparr>store := store st @ [store st ! canvas pg],
             redo_stacks := (redo_stacks st)(current_page_idx st \<mapsto>
                 butlast (stack_at (redo_stacks st) (current_page_idx st))),
             undo_stacks := (undo_stacks st)(current_page_idx st \<mapsto>
                 stack_at (undo_stacks st) (current_page_idx st) @ [length (store st)]),
             pages := (pages st)[nat (current_page_idx st) :=
                 pg\<lparr>canvas := last (stack_at (redo_stacks st) (current_page_idx st))\<rparr>]\<rparr>)"
  using assms by (simp add: redo_def Let_def alloc_def) (simp add: ensure_stacks_def)

lemma page_of_range:
  "page_of st = Some pg \<Longrightarrow>
     0 \<le> current_page_idx st \<and> nat (current_page_idx st) < length (pages st) \<and>
     pages st ! nat (current_page_idx st) = pg"
  by (auto simp: page_of_def split: if_splits)

lemma heap_ok_undo:
  assumes "heap_ok st" and "undo st = Inr st'"
  shows "heap_ok st'"
proof (cases "stack_at (undo_stacks st) (current_page_idx st) = []")
  case True
  then show ?thesis using assms by (auto simp: undo_empty)
next
  case False
  define i where "i = current_page_idx st"
  define u where "u = stack_at (undo_stacks st) i"
  define r where "r = stack_at (redo_stacks st) i"
  have u: "undo_stacks st i = Some u" "u \<noteq> []"
    using False by (auto simp: u_def i_def stack_at_def split: option.splits)
  from assms(2) False obtain pg where pg: "page_of st = Some pg"
    by (cases "page_of st") (auto simp: undo_no_page)
  note rg = page_of_range[OF pg, folded i_def]
  have st': "st' = st\<lparr>store := store st @ [store st ! canvas pg],
             undo_stacks := (undo_stacks st)(i \<mapsto> butlast u),
             redo_stacks := (redo_stacks st)(i \<mapsto> r @ [length (store st)]),
             pages := (pages st)[nat i := pg\<lparr>canvas := last u\<rparr>]\<rparr>"
    using assms(2) undo_page[OF pg False] by (simp add: i_def u_def r_def)
  show ?thesis
  proof (rule heap_okI[OF assms(1), where F = "{RedoAt i (length r)}"
        and g = "\<lambda>s. if s = CanvasOf (nat i) then UndoAt i (length u - 1) else s"])
    show "length (store st) \<le> length (store st')" by (simp add: st')
  next
    fix s a
    assume "slot_ref st' s = Some a" "s \<notin> {RedoAt i (length r)}"
    then show "slot_ref st (if s = CanvasOf (nat i) then UndoAt i (length u - 1) else s) = Some a"
      using u rg
      by (cases s)
        (auto simp: st' r_def stack_at_def nth_append nth_butlast last_conv_nth nth_list_update
          split: if_splits option.splits)
  next
    fix s a
    assume "slot_ref st' s = Some a" "s \<in> {RedoAt i (length r)}"
    then show "length (store st) \<le> a \<and> a < length (store st')"
      by (auto simp: st')
  next
    fix s s'
    assume "s \<notin> {RedoAt i (length r)}" "s' \<notin> {RedoAt i (length r)}"
      "slot_ref st' s \<noteq> None" "slot_ref st' s' \<noteq> None"
      "(if s = CanvasOf (nat i) then UndoAt i (length u - 1) else s) =
       (if s' = CanvasOf (nat i) then UndoAt i (length u - 1) else s')"
    then show "s = s'"
      using u by (auto simp: st' split: if_splits)
  qed auto
qed

lemma heap_ok_redo:
  assumes "heap_ok st" and "redo st = Inr st'"
  shows "heap_ok st'"
proof (cases "stack_at (redo_stacks st) (current_page_idx st) = []")
  case True
  then show ?thesis using assms by (auto simp: redo_empty)
next
  case False
  define i where "i = current_page_idx st"
  define u where "u = stack_at (undo_stacks st) i"
  define r where "r = stack_at (redo_stacks st) i"
  have r: "redo_stacks st i = Some r" "r \<noteq> []"
    using False by (auto simp: r_def i_def stack_at_def split: option.splits)
  from assms(2) False obtain pg where pg: "page_of st = Some pg"
    by (cases "page_of st") (auto simp: redo_no_page)
  note rg = page_of_range[OF pg, folded i_def]
  have st': "st' = st\<lparr>store := store st @ [store st ! canvas pg],
             redo_stacks := (redo_stacks st)(i \<mapsto> butlast r),
             undo_stacks := (undo_stacks st)(i \<mapsto> u @ [length (store st)]),
             pages := (pages st)[nat i := pg\<lparr>canvas := last r\<rparr>]\<rparr>"
    using assms(2) redo_page[OF pg False] by (simp add: i_def u_def r_def)
  show ?thesis
  proof (rule heap_okI[OF assms(1), where F = "{UndoAt i (length u)}"
        and g = "\<lambda>s. if s = CanvasOf (nat i) then RedoAt i (length r - 1) else s"])
    show "length (store st) \<le> length (store st')" by (simp add: st')
  next
    fix s a
    assume "slot_ref st' s = Some a" "s \<notin> {UndoAt i (length u)}"
    then show "slot_ref st (if s = CanvasOf (nat i) then RedoAt i (length r - 1) else s) = Some a"
      using r rg
      by (cases s)
        (auto simp: st' u_def stack_at_def nth_append nth_butlast last_conv_nth nth_list_update
          split: if_splits option.splits)
  next
    fix s a
    assume "slot_ref st' s = Some a" "s \<in> {UndoAt i (length u)}"
    then show "length (store st) \<le> a \<and> a < length (store st')"
      by (auto simp: st')
  next
    fix s s'
    assume "s \<notin> {UndoAt i (length u)}" "s' \<notin> {UndoAt i (length u)}"
      "slot_ref st' s \<noteq> None" "slot_ref st' s' \<noteq> None"
      "(if s = CanvasOf (nat i) then RedoAt i (length r - 1) else s) =
       (if s' = CanvasOf (nat i) then RedoAt i (length r - 1) else s')"
    then show "s = s'"
      using r by (auto simp: st' split: if_splits)
  qed auto
qed

lemma snapshot_keeps:
  assumes "snapshot st = Inr st1"
  shows "page_of st1 = page_of st" and "pages st1 = pages st"
    and "current_page_idx st1 = current_page_idx st"
    and "floating_pos st1 = floating_pos st" and "floating_image st1 = floating_image st"
    and "length (store st1) = Suc (length (store st))"
proof -
  from assms obtain pg where pg: "page_of st = Some pg"
    using snapshot_Inr_page by blast
  from assms snapshot_page[OF pg] show "page_of st1 = page_of st" and "pages st1 = pages st"
    and "current_page_idx st1 = current_page_idx st"
    and "floating_pos st1 = floating_pos st" and "floating_image st1 = floating_image st"
    and "length (store st1) = Suc (length (store st))"
    by auto
qed

lemma heap_ok_same:
  assumes "heap_ok st" and "map canvas (pages st') = map canvas (pages st)"
    and "undo_stacks st' = undo_stacks st" and "redo_stacks st' = redo_stacks st"
    and "length (store st') = length (store st)"
  shows "heap_ok st'"
  using heap_ok_cong[OF assms(1-4)] assms(5) by simp

lemma heap_ok_paint [simp]: "heap_ok (paint a f st) = heap_ok st"
proof -
  have "slot_ref (paint a f st) = slot_ref st"
    by (rule ext, rule slot_ref_cong) (simp_all add: paint_def)
  then show ?thesis by (simp add: heap_ok_def) (simp add: paint_def)
qed

lemma Page_init_facts:
  assumes "Page_init q w h bg st = (pg, st1)"
  shows "canvas pg = length (store st)" and "pages st1 = pages st"
    and "undo_stacks st1 = undo_stacks st" and "redo_stacks st1 = redo_stacks st"
    and "length (store st1) = Suc (length (store st))"
    and "current_page_idx st1 = current_page_idx st"
  using assms
  by (auto simp: Page_init_def Page_set_background_def alloc_def paint_def Let_def
      split: option.splits if_splits)

lemma heap_ok_add_page:
  assumes "heap_ok st" and "add_page q st = Inr st'"
  shows "heap_ok st'"
proof -
  obtain pg st1 where p: "Page_init q (max 200 (win_width st))
      (max 200 (win_height st - toolbar_height st))
      (case page_of st of None \<Rightarrow> None | Some pg \<Rightarrow> bg_image pg) st = (pg, st1)"
    by fastforce
  note f = Page_init_facts[OF p]
  define st3 where
    "st3 = st1\<lparr>pages := pages st1 @ [pg], current_page_idx := int (length (pages st1 @ [pg])) - 1\<rparr>"
  have s: "snapshot (ensure_stacks st3) = Inr st'"
    using assms(2) by (simp add: add_page_def Let_def p st3_def)
  have "heap_ok st3"
  proof (rule heap_okI[OF assms(1), where g = id and F = "{CanvasOf (length (pages st))}"])
    show "length (store st) \<le> length (store st3)" by (simp add: st3_def f)
  next
    fix s a
    assume "slot_ref st3 s = Some a" "s \<notin> {CanvasOf (length (pages st))}"
    then show "slot_ref st (id s) = Some a"
      by (cases s) (auto simp: st3_def f nth_append split: if_splits)
  next
    fix s a
    assume "slot_ref st3 s = Some a" "s \<in> {CanvasOf (length (pages st))}"
    then show "length (store st) \<le> a \<and> a < length (store st3)"
      by (auto simp: st3_def f)
  qed auto
  then show ?thesis using heap_ok_snapshot[OF _ s] by simp
qed

lemma heap_ok_delete:
  assumes "heap_ok st" and "delete_current_page st = Inr st'"
  shows "heap_ok st'"
proof (cases "pages st = []")
  case True
  then show ?thesis using assms by (auto simp: delete_current_page_def)
next
  case False
  define idx where "idx = current_page_idx st"
  define n where "n = int (length (pages st))"
  define k where "k = nat (if idx < 0 then idx + n else idx)"
  have rng: "\<not> (idx < - n \<or> n \<le> idx)"
    using assms(2) False by (auto simp: delete_current_page_def Let_def idx_def n_def split: if_splits)
  then have k: "k < length (pages st)" by (auto simp: k_def n_def)
  have st': "pages st' = take k (pages st) @ drop (Suc k) (pages st)"
    "undo_stacks st' = (undo_stacks st)(idx := None)"
    "redo_stacks st' = (redo_stacks st)(idx := None)"
    "store st' = store st"
    using assms(2) False rng
    by (auto simp: delete_current_page_def Let_def idx_def n_def k_def split: if_splits)
  show ?thesis
  proof (rule heap_okI[OF assms(1), where F = "{}"
        and g = "\<lambda>s. case s of CanvasOf p \<Rightarrow> CanvasOf (if p < k then p else Suc p) | _ \<Rightarrow> s"])
    show "length (store st) \<le> length (store st')" by (simp add: st')
  next
    fix s a
    assume "slot_ref st' s = Some a" "s \<notin> {}"
    then show "slot_ref st (case s of CanvasOf p \<Rightarrow> CanvasOf (if p < k then p else Suc p) | _ \<Rightarrow> s)
        = Some a"
      using k
      by (cases s) (auto simp: st' nth_append min_def split: if_splits option.splits)
  next
    fix s s'
    assume "slot_ref st' s \<noteq> None" "slot_ref st' s' \<noteq> None"
      "(case s of CanvasOf p \<Rightarrow> CanvasOf (if p < k then p else Suc p) | _ \<Rightarrow> s) =
       (case s' of CanvasOf p \<Rightarrow> CanvasOf (if p < k then p else Suc p) | _ \<Rightarrow> s')"
    then show "s = s'"
      by (cases s; cases s') (auto split: if_splits)
  qed auto
qed

lemma heap_ok_set_background:
  assumes "heap_ok st" and "set_background_image q fname st = Inr st'"
  shows "heap_ok st'"
proof (cases "fname \<noteq> [] \<and> page_of st \<noteq> None")
  case False
  then show ?thesis using assms by (auto simp: set_background_image_def)
next
  case True
  then obtain pg where pg: "page_of st = Some pg" by auto
  obtain st1 where s: "snapshot st = Inr st1" using snapshot_page[OF pg] by simp
  have pg1: "page_of st1 = Some pg" using snapshot_keeps(1)[OF s] pg by simp
  note rg = page_of_range[OF pg1]
  have st': "st' = (paint (canvas pg) (drawPixmap q (0, 0)
        (scaled q (QPixmap_of_file q fname) (pm_width (store st1 ! canvas pg))
           (pm_height (store st1 ! canvas pg)))) st1)
      \<lparr>pages := (pages st1)[nat (current_page_idx st1) := pg\<lparr>bg_image := Some fname\<rparr>]\<rparr>"
    using assms(2) True s pg1
    by (simp add: set_background_image_def Page_set_background_def Let_def) (simp add: paint_def)
  have m: "map canvas (pages st') = map canvas (pages st1)"
    using rg by (simp add: st' paint_def map_update) (metis list_update_id nth_map length_map)
  show ?thesis
    using heap_ok_snapshot[OF assms(1) s] m
    by (rule heap_ok_same) (simp_all add: st' paint_def)
qed

lemma heap_ok_toggle_move_mode:
  assumes "heap_ok st" and "toggle_move_mode q st = Inr st'"
  shows "heap_ok st'"
proof (cases "floating_image st \<noteq> None \<and> move_mode st")
  case False
  then have "st' = st \<or> st' = st\<lparr>move_mode := True\<rparr>"
    using assms(2) by (auto simp: toggle_move_mode_def split: option.splits if_splits)
  then show ?thesis using assms(1) by (auto intro: heap_ok_same)
next
  case True
  then obtain fi where fi: "floating_image st = Some fi" by auto
  from assms(2) True fi obtain pg where pg: "page_of st = Some pg"
    by (cases "page_of st") (auto simp: toggle_move_mode_def snapshot_no_page)
  obtain st1 where s: "snapshot st = Inr st1" using snapshot_page[OF pg] by simp
  have pg1: "page_of st1 = Some pg" using snapshot_keeps(1)[OF s] pg by simp
  have st': "st' = (paint (canvas pg) (drawPixmap q (floating_pos st1) fi) st1)
                      \<lparr>floating_image := None, move_mode := False\<rparr>"
    using assms(2) True fi s pg1 by (simp add: toggle_move_mode_def)
  have "heap_ok (paint (canvas pg) (drawPixmap q (floating_pos st1) fi) st1)"
    using heap_ok_snapshot[OF assms(1) s] by simp
  then show ?thesis unfolding st' by (rule heap_ok_same) simp_all
qed

lemma heap_ok_mousePress:
  assumes "heap_ok st" and "mousePressEvent button pos st = Inr st'"
  shows "heap_ok st'"
proof -
  define local where "local = (fst pos, snd pos - toolbar_height st)"
  define st0 where "st0 = st\<lparr>canvas_top := toolbar_height st\<rparr>"
  have ok0: "heap_ok st0" using assms(1) by (rule heap_ok_same) (simp_all add: st0_def)
  consider (plain) "map canvas (pages st') = map canvas (pages st0)"
      "undo_stacks st' = undo_stacks st0" "redo_stacks st' = redo_stacks st0"
      "length (store st') = length (store st0)"
    | (snap) "snapshot (st0\<lparr>drawing := True, last_point := local\<rparr>) = Inr st'"
    using assms(2)
    by (auto simp: mousePressEvent_def drawing_rect_def set_pen_color_def Let_def st0_def
        local_def split: if_splits option.splits)
  then show ?thesis
  proof cases
    case plain
    with ok0 show ?thesis by (rule heap_ok_same)
  next
    case snap
    have "heap_ok (st0\<lparr>drawing := True, last_point := local\<rparr>)"
      using ok0 by (rule heap_ok_same) simp_all
    then show ?thesis using snap by (rule heap_ok_snapshot)
  qed
qed

lemma heap_ok_mouseMove:
  assumes "heap_ok st"
  shows "heap_ok (mouseMoveEvent q b pos st)"
  using assms
  by (rule heap_ok_same)
    (auto simp: mouseMoveEvent_def drawing_rect_def drag_floating_def draw_segment_def
      paint_def Let_def split: option.splits prod.splits)

lemma heap_ok_fire:
  assumes "heap_ok st" and "fire q ev st = Inr st'"
  shows "heap_ok st'"
proof (cases ev)
  case Undo
  then show ?thesis using assms heap_ok_undo by auto
next
  case Redo
  then show ?thesis using assms heap_ok_redo by auto
next
  case AddPage
  then show ?thesis using assms heap_ok_add_page by auto
next
  case DeletePage
  then show ?thesis using assms heap_ok_delete by auto
next
  case (SetBackgroundImage fname)
  then show ?thesis using assms heap_ok_set_background by auto
next
  case ToggleMoveMode
  then show ?thesis using assms heap_ok_toggle_move_mode by auto
next
  case (MousePress button pos)
  then show ?thesis using assms heap_ok_mousePress by auto
next
  case (MouseMove b pos)
  with assms have "st' = mouseMoveEvent q b pos st" by simp
  then show ?thesis using assms(1) by (simp add: heap_ok_mouseMove)
qed (use assms in \<open>auto intro!: heap_ok_same[OF assms(1)]
      simp: change_page_def set_pen_color_def enable_eyedropper_def
      toggle_eraser_def toggle_eraser_shortcut_def set_pen_width_def mouseReleaseEvent_def
      resizeEvent_def paste_image_def Let_def split: if_splits option.splits prod.splits\<close>)

lemma heap_ok_fresh: "heap_ok (fresh tb)"
proof -
  have "slot_ref (fresh tb) s = None" for s
    by (cases s) (simp_all add: fresh_def)
  then show ?thesis by (simp add: heap_ok_def)
qed

lemma reachable_heap_ok: "reachable q st \<Longrightarrow> heap_ok st"
proof (induction rule: reachable.induct)
  case (reachable_init tb st)
  then show ?case
    using heap_ok_add_page[OF heap_ok_fresh] by (simp add: Notebook_init_def)
next
  case (reachable_step st ev st')
  from heap_ok_fire[OF reachable_step.IH reachable_step.hyps(2)] show ?case .
qed

section \<open>What a step leaves as it is\<close>

lemma snapshots_same:
  "undo_stacks st' = undo_stacks st \<Longrightarrow> redo_stacks st' = redo_stacks st \<Longrightarrow>
     snapshots st' = snapshots st"
  by (simp add: snapshots_def)

lemma snapshots_upd [simp]:
  "snapshots (st\<lparr>drawing := d\<rparr>) = snapshots st"
  "snapshots (st\<lparr>last_point := lp\<rparr>) = snapshots st"
  "snapshots (st\<lparr>pen_color := c\<rparr>) = snapshots st"
  "snapshots (st\<lparr>pen_width := pw\<rparr>) = snapshots st"
  "snapshots (st\<lparr>eraser := e\<rparr>) = snapshots st"
  "snapshots (st\<lparr>eyedropper := e\<rparr>) = snapshots st"
  "snapshots (st\<lparr>floating_image := fi\<rparr>) = snapshots st"
  "snapshots (st\<lparr>floating_pos := fp\<rparr>) = snapshots st"
  "snapshots (st\<lparr>move_mode := mm\<rparr>) = snapshots st"
  "snapshots (st\<lparr>pages := ps\<rparr>) = snapshots st"
  "snapshots (st\<lparr>current_page_idx := i\<rparr>) = snapshots st"
  "snapshots (st\<lparr>canvas_top := t\<rparr>) = snapshots st"
  "snapshots (st\<lparr>eraser_act_checked := e\<rparr>) = snapshots st"
  "snapshots (st\<lparr>store := sto\<rparr>) = snapshots st"
  "snapshots (st\<lparr>win_width := ww\<rparr>) = snapshots st"
  "snapshots (st\<lparr>win_height := wh\<rparr>) = snapshots st"
  "snapshots (st\<lparr>toolbar_height := th\<rparr>) = snapshots st"
  by (simp_all add: snapshots_def)

text \<open>
  In a state without sharing a snapshot is allocated and is the canvas of no page.
\<close>

lemma snapshot_not_canvas:
  assumes "heap_ok st" and "a \<in> snapshots st"
  shows "a < length (store st)" and "\<forall>p < length (pages st). canvas (pages st ! p) \<noteq> a"
proof -
  from assms(2) obtain i k where
    "slot_ref st (UndoAt i k) = Some a \<or> slot_ref st (RedoAt i k) = Some a"
    unfolding snapshots_def by blast
  then obtain s where s: "slot_ref st s = Some a" "\<forall>p. s \<noteq> CanvasOf p"
    by blast
  from s(1) assms(1) show "a < length (store st)" unfolding heap_ok_def by blast
  show "\<forall>p < length (pages st). canvas (pages st ! p) \<noteq> a"
  proof (intro allI impI notI)
    fix p assume "p < length (pages st)" "canvas (pages st ! p) = a"
    then have "slot_ref st (CanvasOf p) = Some a" by simp
    with s(1) assms(1) have "CanvasOf p = s" unfolding heap_ok_def by blast
    with s(2) show False by blast
  qed
qed

lemma snapshot_not_live:
  assumes "heap_ok st" and "a \<in> snapshots st"
  shows "\<forall>pg. page_of st = Some pg \<longrightarrow> canvas pg \<noteq> a"
proof (intro allI impI)
  fix pg assume "page_of st = Some pg"
  from page_of_range[OF this] snapshot_not_canvas(2)[OF assms]
  show "canvas pg \<noteq> a" by blast
qed

text \<open>
  The stacks of a later state hold, among the references allocated before, only what
  they held before: the rule to show it, entry by entry.
\<close>

lemma snapshots_oldI:
  assumes "\<And>i k a. slot_ref st' (UndoAt i k) = Some a \<Longrightarrow> a < n \<Longrightarrow>
              slot_ref st (UndoAt i k) = Some a"
    and "\<And>i k a. slot_ref st' (RedoAt i k) = Some a \<Longrightarrow> a < n \<Longrightarrow>
              slot_ref st (RedoAt i k) = Some a"
  shows "\<forall>a \<in> snapshots st'. a < n \<longrightarrow> a \<in> snapshots st"
  unfolding snapshots_def using assms by blast

lemma frame_snapshot:
  assumes "snapshot st = Inr st'"
  shows "\<forall>a < length (store st). store st' ! a = store st ! a"
    and "\<forall>a \<in> snapshots st'. a < length (store st) \<longrightarrow> a \<in> snapshots st"
proof -
  from assms obtain pg where pg: "page_of st = Some pg"
    using snapshot_Inr_page by blast
  have st': "st' = st\<lparr>store := store st @ [store st ! canvas pg],
       undo_stacks := (undo_stacks st)(current_page_idx st \<mapsto>
           stack_at (undo_stacks st) (current_page_idx st) @ [length (store st)]),
       redo_stacks := (redo_stacks st)(current_page_idx st \<mapsto> [])\<rparr>"
    using assms snapshot_page[OF pg] by simp
  show "\<forall>a < length (store st). store st' ! a = store st ! a"
    by (simp add: st' nth_append)
  show "\<forall>a \<in> snapshots st'. a < length (store st) \<longrightarrow> a \<in> snapshots st"
    by (rule snapshots_oldI)
      (auto simp: st' stack_at_def nth_append split: if_splits option.splits)
qed

lemma frame_ensure_stacks:
  "\<forall>a \<in> snapshots (ensure_stacks st). a < n \<longrightarrow> a \<in> snapshots st"
  by (rule snapshots_oldI) (simp_all del: slot_ref.simps)

lemma frame_undo:
  assumes "undo st = Inr st'"
  shows "\<forall>a < length (store st). store st' ! a = store st ! a"
    and "\<forall>a \<in> snapshots st'. a < length (store st) \<longrightarrow> a \<in> snapshots st"
proof -
  have "(\<forall>a < length (store st). store st' ! a = store st ! a) \<and>
        (\<forall>a \<in> snapshots st'. a < length (store st) \<longrightarrow> a \<in> snapshots st)"
  proof (cases "stack_at (undo_stacks st) (current_page_idx st) = []")
    case True
    with assms have "st' = ensure_stacks st" by (simp add: undo_empty)
    then show ?thesis using frame_ensure_stacks by simp
  next
    case False
    from assms False obtain pg where pg: "page_of st = Some pg"
      by (cases "page_of st") (auto simp: undo_no_page)
    define st2 where "st2 = projr (undo st)"
    have e: "st' = st2" using assms by (simp add: st2_def)
    have "\<forall>a \<in> snapshots st2. a < length (store st) \<longrightarrow> a \<in> snapshots st"
      by (rule snapshots_oldI)
        (auto simp: st2_def undo_page[OF pg False] stack_at_def nth_append nth_butlast
          split: if_splits option.splits)
    moreover have "\<forall>a < length (store st). store st2 ! a = store st ! a"
      by (simp add: st2_def undo_page[OF pg False] nth_append)
    ultimately show ?thesis unfolding e by blast
  qed
  then show "\<forall>a < length (store st). store st' ! a = store st ! a"
    and "\<forall>a \<in> snapshots st'. a < length (store st) \<longrightarrow> a \<in> snapshots st"
    by blast+
qed

lemma frame_redo:
  assumes "redo st = Inr st'"
  shows "\<forall>a < length (store st). store st' ! a = store st ! a"
    and "\<forall>a \<in> snapshots st'. a < length (store st) \<longrightarrow> a \<in> snapshots st"
proof -
  have "(\<forall>a < length (store st). store st' ! a = store st ! a) \<and>
        (\<forall>a \<in> snapshots st'. a < length (store st) \<longrightarrow> a \<in> snapshots st)"
  proof (cases "stack_at (redo_stacks st) (current_page_idx st) = []")
    case True
    with assms have "st' = ensure_stacks st" by (simp add: redo_empty)
    then show ?thesis using frame_ensure_stacks by simp
  next
    case False
    from assms False obtain pg where pg: "page_of st = Some pg"
      by (cases "page_of st") (auto simp: redo_no_page)
    define st2 where "st2 = projr (redo st)"
    have e: "st' = st2" using assms by (simp add: st2_def)
    have "\<forall>a \<in> snapshots st2. a < length (store st) \<longrightarrow> a \<in> snapshots st"
      by (rule snapshots_oldI)
        (auto simp: st2_def redo_page[OF pg False] stack_at_def nth_append nth_butlast
          split: if_splits option.splits)
    moreover have "\<forall>a < length (store st). store st2 ! a = store st ! a"
      by (simp add: st2_def redo_page[OF pg False] nth_append)
    ultimately show ?thesis unfolding e by blast
  qed
  then show "\<forall>a < length (store st). store st' ! a = store st ! a"
    and "\<forall>a \<in> snapshots st'. a < length (store st) \<longrightarrow> a \<in> snapshots st"
    by blast+
qed

lemma Page_init_store:
  assumes "Page_init q w h bg st = (pg, st1)"
  shows "\<forall>a < length (store st). store st1 ! a = store st ! a"
  using assms
  by (auto simp: Page_init_def Page_set_background_def alloc_def paint_def Let_def nth_append
      split: option.splits if_splits)

lemma frame_add_page:
  assumes "add_page q st = Inr st'"
  shows "\<forall>a < length (store st). store st' ! a = store st ! a"
    and "\<forall>a \<in> snapshots st'. a < length (store st) \<longrightarrow> a \<in> snapshots st"
proof -
  obtain pg st1 where p: "Page_init q (max 200 (win_width st))
      (max 200 (win_height st - toolbar_height st))
      (case page_of st of None \<Rightarrow> None | Some pg \<Rightarrow> bg_image pg) st = (pg, st1)"
    by fastforce
  note f = Page_init_facts[OF p]
  define st3 where
    "st3 = st1\<lparr>pages := pages st1 @ [pg], current_page_idx := int (length (pages st1 @ [pg])) - 1\<rparr>"
  have s: "snapshot (ensure_stacks st3) = Inr st'"
    using assms by (simp add: add_page_def Let_def p st3_def)
  have l: "length (store (ensure_stacks st3)) = Suc (length (store st))"
    by (simp add: st3_def f)
  have "snapshots st3 = snapshots st"
    by (rule snapshots_same) (simp_all add: st3_def f)
  with frame_snapshot(2)[OF s] frame_ensure_stacks[of st3]
  show "\<forall>a \<in> snapshots st'. a < length (store st) \<longrightarrow> a \<in> snapshots st"
    unfolding l by (metis less_Suc_eq)
  from frame_snapshot(1)[OF s] Page_init_store[OF p]
  show "\<forall>a < length (store st). store st' ! a = store st ! a"
    unfolding l by (simp add: st3_def)
qed

lemma frame_delete:
  assumes "delete_current_page st = Inr st'"
  shows "store st' = store st"
    and "\<forall>a \<in> snapshots st'. a < n \<longrightarrow> a \<in> snapshots st"
proof -
  have st': "store st' = store st \<and>
      (undo_stacks st' = undo_stacks st \<and> redo_stacks st' = redo_stacks st \<or>
       undo_stacks st' = (undo_stacks st)(current_page_idx st := None) \<and>
       redo_stacks st' = (redo_stacks st)(current_page_idx st := None))"
    using assms by (auto simp: delete_current_page_def Let_def split: if_splits)
  then show "store st' = store st" by simp
  show "\<forall>a \<in> snapshots st'. a < n \<longrightarrow> a \<in> snapshots st"
    by (rule snapshots_oldI) (use st' in \<open>auto split: if_splits option.splits\<close>)
qed

lemma frame_set_background:
  assumes "set_background_image q fname st = Inr st'"
  shows "\<forall>a < length (store st). (\<forall>pg. page_of st = Some pg \<longrightarrow> canvas pg \<noteq> a) \<longrightarrow>
           store st' ! a = store st ! a"
    and "\<forall>a \<in> snapshots st'. a < length (store st) \<longrightarrow> a \<in> snapshots st"
proof -
  have "(\<forall>a < length (store st). (\<forall>pg. page_of st = Some pg \<longrightarrow> canvas pg \<noteq> a) \<longrightarrow>
           store st' ! a = store st ! a) \<and>
        (\<forall>a \<in> snapshots st'. a < length (store st) \<longrightarrow> a \<in> snapshots st)"
  proof (cases "fname \<noteq> [] \<and> page_of st \<noteq> None")
    case False
    then show ?thesis using assms by (auto simp: set_background_image_def)
  next
    case True
    then obtain pg where pg: "page_of st = Some pg" by auto
    obtain st1 where s: "snapshot st = Inr st1" using snapshot_page[OF pg] by simp
    have pg1: "page_of st1 = Some pg" using snapshot_keeps(1)[OF s] pg by simp
    have st': "st' = (paint (canvas pg) (drawPixmap q (0, 0)
          (scaled q (QPixmap_of_file q fname) (pm_width (store st1 ! canvas pg))
             (pm_height (store st1 ! canvas pg)))) st1)
        \<lparr>pages := (pages st1)[nat (current_page_idx st1) := pg\<lparr>bg_image := Some fname\<rparr>]\<rparr>"
      using assms True s pg1
      by (simp add: set_background_image_def Page_set_background_def Let_def) (simp add: paint_def)
    have "snapshots st' = snapshots st1"
      by (rule snapshots_same) (simp_all add: st' paint_def)
    moreover have "\<forall>a. a \<noteq> canvas pg \<longrightarrow> store st' ! a = store st1 ! a"
      by (simp add: st' paint_def)
    ultimately show ?thesis using frame_snapshot[OF s] pg by auto
  qed
  then show "\<forall>a < length (store st). (\<forall>pg. page_of st = Some pg \<longrightarrow> canvas pg \<noteq> a) \<longrightarrow>
           store st' ! a = store st ! a"
    and "\<forall>a \<in> snapshots st'. a < length (store st) \<longrightarrow> a \<in> snapshots st"
    by blast+
qed

lemma frame_toggle_move_mode:
  assumes "toggle_move_mode q st = Inr st'"
  shows "\<forall>a < length (store st). (\<forall>pg. page_of st = Some pg \<longrightarrow> canvas pg \<noteq> a) \<longrightarrow>
           store st' ! a = store st ! a"
    and "\<forall>a \<in> snapshots st'. a < length (store st) \<longrightarrow> a \<in> snapshots st"
proof -
  have "(\<forall>a < length (store st). (\<forall>pg. page_of st = Some pg \<longrightarrow> canvas pg \<noteq> a) \<longrightarrow>
           store st' ! a = store st ! a) \<and>
        (\<forall>a \<in> snapshots st'. a < length (store st) \<longrightarrow> a \<in> snapshots st)"
  proof (cases "floating_image st \<noteq> None \<and> move_mode st")
    case False
    then have "st' = st \<or> st' = st\<lparr>move_mode := True\<rparr>"
      using assms by (auto simp: toggle_move_mode_def split: option.splits if_splits)
    then show ?thesis by auto
  next
    case True
    then obtain fi where fi: "floating_image st = Some fi" by auto
    from assms True fi obtain pg where pg: "page_of st = Some pg"
      by (cases "page_of st") (auto simp: toggle_move_mode_def snapshot_no_page)
    obtain st1 where s: "snapshot st = Inr st1" using snapshot_page[OF pg] by simp
    have pg1: "page_of st1 = Some pg" using snapshot_keeps(1)[OF s] pg by simp
    have st': "st' = (paint (canvas pg) (drawPixmap q (floating_pos st1) fi) st1)
                        \<lparr>floating_image := None, move_mode := False\<rparr>"
      using assms True fi s pg1 by (simp add: toggle_move_mode_def)
    have "snapshots st' = snapshots st1"
      by (rule snapshots_same) (simp_all add: st' paint_def)
    moreover have "\<forall>a. a \<noteq> canvas pg \<longrightarrow> store st' ! a = store st1 ! a"
      by (simp add: st' paint_def)
    ultimately show ?thesis using frame_snapshot[OF s] pg by auto
  qed
  then show "\<forall>a < length (store st). (\<forall>pg. page_of st = Some pg \<longrightarrow> canvas pg \<noteq> a) \<longrightarrow>
           store st' ! a = store st ! a"
    and "\<forall>a \<in> snapshots st'. a < length (store st) \<longrightarrow> a \<in> snapshots st"
    by blast+
qed

lemma frame_mousePress:
  assumes "mousePressEvent button pos st = Inr st'"
  shows "\<forall>a < length (store st). store st' ! a = store st ! a"
    and "\<forall>a \<in> snapshots st'. a < length (store st) \<longrightarrow> a \<in> snapshots st"
proof -
  define local where "local = (fst pos, snd pos - toolbar_height st)"
  define st0 where "st0 = st\<lparr>canvas_top := toolbar_height st, drawing := True, last_point := local\<rparr>"
  have s0: "store st0 = store st" "snapshots st0 = snapshots st"
    by (simp_all add: st0_def)
  consider (plain) "store st' = store st"
      "undo_stacks st' = undo_stacks st" "redo_stacks st' = redo_stacks st"
    | (snap) "snapshot st0 = Inr st'"
    using assms
    by (auto simp: mousePressEvent_def drawing_rect_def set_pen_color_def Let_def st0_def
        local_def split: if_splits option.splits)
  then have "(\<forall>a < length (store st). store st' ! a = store st ! a) \<and>
        (\<forall>a \<in> snapshots st'. a < length (store st) \<longrightarrow> a \<in> snapshots st)"
  proof cases
    case plain
    then show ?thesis using snapshots_same[OF plain(2,3)] by simp
  next
    case snap
    from frame_snapshot[OF snap] show ?thesis unfolding s0 by blast
  qed
  then show "\<forall>a < length (store st). store st' ! a = store st ! a"
    and "\<forall>a \<in> snapshots st'. a < length (store st) \<longrightarrow> a \<in> snapshots st"
    by blast+
qed

lemma frame_mouseMove:
  "\<forall>a. (\<forall>pg. page_of st = Some pg \<longrightarrow> canvas pg \<noteq> a) \<longrightarrow>
      store (mouseMoveEvent q b pos st) ! a = store st ! a"
  "snapshots (mouseMoveEvent q b pos st) = snapshots st"
proof -
  show "snapshots (mouseMoveEvent q b pos st) = snapshots st"
    by (rule snapshots_same)
      (auto simp: mouseMoveEvent_def drawing_rect_def drag_floating_def draw_segment_def
        paint_def Let_def split: option.splits prod.splits)
  show "\<forall>a. (\<forall>pg. page_of st = Some pg \<longrightarrow> canvas pg \<noteq> a) \<longrightarrow>
      store (mouseMoveEvent q b pos st) ! a = store st ! a"
    by (auto simp: mouseMoveEvent_def drawing_rect_def drag_floating_def draw_segment_def
        paint_def Let_def split: option.splits prod.splits)
qed

lemma frame_fire:
  assumes "fire q ev st = Inr st'"
  shows "\<forall>a < length (store st). (\<forall>pg. page_of st = Some pg \<longrightarrow> canvas pg \<noteq> a) \<longrightarrow>
           store st' ! a = store st ! a"
    and "\<forall>a \<in> snapshots st'. a < length (store st) \<longrightarrow> a \<in> snapshots st"
proof -
  have "(\<forall>a < length (store st). (\<forall>pg. page_of st = Some pg \<longrightarrow> canvas pg \<noteq> a) \<longrightarrow>
           store st' ! a = store st ! a) \<and>
        (\<forall>a \<in> snapshots st'. a < length (store st) \<longrightarrow> a \<in> snapshots st)"
  proof (cases ev)
    case Undo
    then show ?thesis using assms frame_undo[of st st'] by simp
  next
    case Redo
    then show ?thesis using assms frame_redo[of st st'] by simp
  next
    case AddPage
    then show ?thesis using assms frame_add_page[of q st st'] by simp
  next
    case DeletePage
    then show ?thesis using assms frame_delete[of st st'] by simp
  next
    case (SetBackgroundImage fname)
    then show ?thesis using assms frame_set_background[of q fname st st'] by simp
  next
    case ToggleMoveMode
    then show ?thesis using assms frame_toggle_move_mode[of q st st'] by simp
  next
    case (MousePress button pos)
    then show ?thesis using assms frame_mousePress[of button pos st st'] by simp
  next
    case (MouseMove b pos)
    with assms have "st' = mouseMoveEvent q b pos st" by simp
    then show ?thesis
      using frame_mouseMove[where st = st and q = q and b = b and pos = pos] by simp
  qed (use assms in \<open>auto simp: change_page_def set_pen_color_def
      enable_eyedropper_def toggle_eraser_def toggle_eraser_shortcut_def set_pen_width_def
      mouseReleaseEvent_def resizeEvent_def paste_image_def Let_def
      split: if_splits option.splits prod.splits\<close>)
  then show "\<forall>a < length (store st). (\<forall>pg. page_of st = Some pg \<longrightarrow> canvas pg \<noteq> a) \<longrightarrow>
           store st' ! a = store st ! a"
    and "\<forall>a \<in> snapshots st'. a < length (store st) \<longrightarrow> a \<in> snapshots st"
    by blast+
qed

text \<open>The store only grows.\<close>

lemma length_store_paint [simp]: "length (store (paint a f st)) = length (store st)"
  by (simp add: paint_def)

lemma store_mono_undo: "undo st = Inr st' \<Longrightarrow> length (store st) \<le> length (store st')"
  by (auto simp: undo_def Let_def alloc_def split: if_splits option.splits)

lemma store_mono_redo: "redo st = Inr st' \<Longrightarrow> length (store st) \<le> length (store st')"
  by (auto simp: redo_def Let_def alloc_def split: if_splits option.splits)

lemma store_mono_add_page:
  assumes "add_page q st = Inr st'"
  shows "length (store st) \<le> length (store st')"
proof -
  obtain pg st1 where p: "Page_init q (max 200 (win_width st))
      (max 200 (win_height st - toolbar_height st))
      (case page_of st of None \<Rightarrow> None | Some pg \<Rightarrow> bg_image pg) st = (pg, st1)"
    by fastforce
  from assms have "snapshot (ensure_stacks
      (st1\<lparr>pages := pages st1 @ [pg], current_page_idx := int (length (pages st1 @ [pg])) - 1\<rparr>))
      = Inr st'"
    by (simp add: add_page_def Let_def p)
  from snapshot_keeps(6)[OF this] Page_init_facts(5)[OF p] show ?thesis by simp
qed

lemma store_mono_fire:
  assumes "fire q ev st = Inr st'"
  shows "length (store st) \<le> length (store st')"
proof (cases ev)
  case Undo
  then show ?thesis using assms store_mono_undo by simp
next
  case Redo
  then show ?thesis using assms store_mono_redo by simp
next
  case AddPage
  then show ?thesis using assms store_mono_add_page by simp
next
  case DeletePage
  then show ?thesis using assms frame_delete(1)[of st st'] by simp
next
  case (SetBackgroundImage fname)
  then show ?thesis using assms
    by (auto simp: set_background_image_def Page_set_background_def Let_def
        dest!: snapshot_keeps(6) split: if_splits sum.splits option.splits)
next
  case ToggleMoveMode
  then show ?thesis using assms
    by (auto simp: toggle_move_mode_def dest!: snapshot_keeps(6)
        split: if_splits sum.splits option.splits)
next
  case (MousePress button pos)
  then show ?thesis using assms
    by (auto simp: mousePressEvent_def drawing_rect_def set_pen_color_def Let_def
        dest!: snapshot_keeps(6) split: if_splits option.splits)
next
  case (MouseMove b pos)
  then show ?thesis using assms
    by (auto simp: mouseMoveEvent_def drawing_rect_def drag_floating_def draw_segment_def
        Let_def split: option.splits prod.splits)
qed (use assms in \<open>auto simp: change_page_def set_pen_color_def
      enable_eyedropper_def toggle_eraser_def toggle_eraser_shortcut_def set_pen_width_def
      mouseReleaseEvent_def resizeEvent_def paste_image_def Let_def
      split: if_splits option.splits prod.splits\<close>)

section \<open>Properties\<close>

subsection \<open>C1: deleting a page\<close>

lemma three_pages_eq:
  "three_pages =
     Inr ((fresh 30)\<lparr>store := replicate 7 (filled 1200 770 white),
                     pages := [\<lparr>canvas = 0, bg_image = None\<rparr>, \<lparr>canvas = 2, bg_image = None\<rparr>,
                               \<lparr>canvas = 4, bg_image = None\<rparr>],
                     current_page_idx := 0,
                     undo_stacks := [0 \<mapsto> [1], 1 \<mapsto> [3, 6], 2 \<mapsto> [5]],
                     redo_stacks := [0 \<mapsto> [], 1 \<mapsto> [], 2 \<mapsto> []],
                     canvas_top := 30, last_point := (10, 10)\<rparr>)"
  by (simp add: three_pages_def Notebook_init_eq add_page_def Page_init_def alloc_def Let_def
      page_of_def snapshot_def ensure_stacks_def setdefault_def stack_at_def fresh_def
      change_page_def mousePressEvent_def drawing_rect_def inside_floating_def in_canvas_def
      size_of_def pm_width_filled pm_height_filled mouseReleaseEvent_def numeral_eq_Suc
      fun_upd_twist)

lemma three_pages_reachable: "reachable qt0 (projr three_pages)"
proof -
  have i: "Notebook_init qt0 30 = Inr (projr (Notebook_init qt0 30))"
    by (simp add: Notebook_init_eq)
  then have r: "reachable qt0 (projr (Notebook_init qt0 30))" by (rule reachable_init)
  have "run qt0 [AddPage, AddPage, ChangePage 1, MousePress LeftButton (10, 40),
                 MouseRelease LeftButton, ChangePage 0] (projr (Notebook_init qt0 30))
        = Inr (projr three_pages)"
    using three_pages_eq i
    by (metis (no_types, lifting) three_pages_def sum.case(2) sum.sel(2))
  with r show ?thesis by (rule run_reachable)
qed

text \<open>
  What \<open>delete_current_page\<close> does with a current page at index \<open>k\<close>: the page is
  removed, the pages after it move down by one, the current index becomes
  \<open>max 0 (k - 1)\<close> (or \<open>-1\<close> when no page is left), and of the stacks just the key
  \<open>k\<close> is removed; every other key keeps its stacks.
\<close>

lemma delete_current_page_effect:
  assumes "page_of st = Some pg"
  shows "delete_current_page st =
     Inr (st\<lparr>pages := take (nat (current_page_idx st)) (pages st) @
                       drop (Suc (nat (current_page_idx st))) (pages st),
             undo_stacks := (undo_stacks st)(current_page_idx st := None),
             redo_stacks := (redo_stacks st)(current_page_idx st := None),
             current_page_idx :=
               (if length (pages st) = 1 then - 1 else max 0 (current_page_idx st - 1))\<rparr>)"
proof -
  note rg = page_of_range[OF assms]
  have ne: "pages st \<noteq> []" using rg by auto
  have ub: "current_page_idx st < int (length (pages st))" using rg by auto
  have e: "(take (nat (current_page_idx st)) (pages st) @
            drop (Suc (nat (current_page_idx st))) (pages st) = []) =
           (length (pages st) = 1)"
    using rg by (cases "pages st") auto
  show ?thesis
    using ne ub rg by (simp add: delete_current_page_def Let_def e)
qed

text \<open>
  Claim C1 says that deleting a page leaves every remaining page with its own undo and
  redo history. The stacks are keyed by the index of the page, and
  \<open>delete_current_page\<close> removes the key of the deleted page without moving the keys
  above it. In the reachable state \<open>three_pages\<close> the pages have the canvases 0, 2, 4
  and the undo stacks \<open>[1]\<close>, \<open>[3, 6]\<close>, \<open>[5]\<close>. Deleting page 0 sets the current
  index to 0, as claimed, and removes the stack of key 0; but the page with canvas 2 is
  now at index 0, where there is no stack, and the page with canvas 4 is at index 1,
  whose stack \<open>[3, 6]\<close> is the history of the page with canvas 2.
\<close>

theorem delete_page_shifts_history:
  "reachable qt0 (projr three_pages) \<and>
   map canvas (pages (projr three_pages)) = [0, 2, 4] \<and>
   current_page_idx (projr three_pages) = 0 \<and>
   undo_stacks (projr three_pages) 0 = Some [1] \<and>
   undo_stacks (projr three_pages) 1 = Some [3, 6] \<and>
   undo_stacks (projr three_pages) 2 = Some [5] \<and>
   \<not> isl (delete_current_page (projr three_pages)) \<and>
   map canvas (pages (projr (delete_current_page (projr three_pages)))) = [2, 4] \<and>
   current_page_idx (projr (delete_current_page (projr three_pages))) = 0 \<and>
   undo_stacks (projr (delete_current_page (projr three_pages))) 0 = None \<and>
   undo_stacks (projr (delete_current_page (projr three_pages))) 1 = Some [3, 6] \<and>
   undo_stacks (projr (delete_current_page (projr three_pages))) 2 = Some [5]"
  using three_pages_reachable
  by (simp add: three_pages_eq delete_current_page_def Let_def fresh_def)

subsection \<open>C2: undo and redo are inverse\<close>

lemma stack_refs_snapshots:
  "a \<in> set (stack_at (undo_stacks st) i) \<Longrightarrow> a \<in> snapshots st"
  "a \<in> set (stack_at (redo_stacks st) i) \<Longrightarrow> a \<in> snapshots st"
proof -
  assume "a \<in> set (stack_at (undo_stacks st) i)"
  then obtain u where "undo_stacks st i = Some u" "a \<in> set u"
    by (cases "undo_stacks st i") (auto simp: stack_at_def)
  then obtain u k where "undo_stacks st i = Some u" "k < length u" "u ! k = a"
    by (auto simp: in_set_conv_nth)
  then have "slot_ref st (UndoAt i k) = Some a" by simp
  then show "a \<in> snapshots st" unfolding snapshots_def by blast
next
  assume "a \<in> set (stack_at (redo_stacks st) i)"
  then obtain r where "redo_stacks st i = Some r" "a \<in> set r"
    by (cases "redo_stacks st i") (auto simp: stack_at_def)
  then obtain r k where "redo_stacks st i = Some r" "k < length r" "r ! k = a"
    by (auto simp: in_set_conv_nth)
  then have "slot_ref st (RedoAt i k) = Some a" by simp
  then show "a \<in> snapshots st" unfolding snapshots_def by blast
qed

lemma map_store_append:
  "\<forall>a \<in> set xs. a < length sto \<Longrightarrow> map (\<lambda>a. (sto @ ys) ! a) xs = map (\<lambda>a. sto ! a) xs"
  by (simp add: nth_append)

text \<open>What \<open>snapshot\<close>, \<open>undo\<close> and \<open>redo\<close> do to the buffer and to the pixmaps on the stacks.\<close>

lemma snapshot_view:
  assumes "heap_ok st" and "snapshot st = Inr st1" and "buffer st = Some b"
  shows "heap_ok st1" and "buffer st1 = Some b"
    and "undo_view st1 = undo_view st @ [b]" and "redo_view st1 = []"
proof -
  from assms(2) obtain pg where pg: "page_of st = Some pg"
    using snapshot_Inr_page by blast
  have b: "b = store st ! canvas pg" using assms(3) pg by (simp add: buffer_def)
  define i where "i = current_page_idx st"
  define u where "u = stack_at (undo_stacks st) i"
  have st1: "st1 = st\<lparr>store := store st @ [store st ! canvas pg],
                       undo_stacks := (undo_stacks st)(i \<mapsto> u @ [length (store st)]),
                       redo_stacks := (redo_stacks st)(i \<mapsto> [])\<rparr>"
    using assms(2) snapshot_page[OF pg] by (simp add: i_def u_def)
  have lt: "\<forall>a \<in> set u. a < length (store st)"
    using stack_refs_snapshots(1) snapshot_not_canvas(1)[OF assms(1)] unfolding u_def by blast
  have c: "canvas pg < length (store st)"
    using assms(1) page_of_range[OF pg] unfolding heap_ok_def
    by (metis slot_ref.simps(1))
  show "heap_ok st1" using assms(1,2) by (rule heap_ok_snapshot)
  show "buffer st1 = Some b"
    using pg c by (simp add: buffer_def st1 b nth_append)
  show "undo_view st1 = undo_view st @ [b]"
    using lt by (simp add: undo_view_def st1 stack_at_def b map_store_append
        i_def[symmetric] u_def[symmetric]) (simp add: u_def stack_at_def)
  show "redo_view st1 = []"
    by (simp add: redo_view_def st1 stack_at_def i_def)
qed

lemma undo_view_step:
  assumes "heap_ok st" and "buffer st = Some b" and "undo_view st = us @ [x]"
  shows "\<exists>st'. undo st = Inr st' \<and> heap_ok st' \<and> buffer st' = Some x \<and>
           undo_view st' = us \<and> redo_view st' = redo_view st @ [b]"
proof -
  from assms(2) obtain pg where pg: "page_of st = Some pg" and b: "b = store st ! canvas pg"
    by (auto simp: buffer_def split: option.splits)
  define i where "i = current_page_idx st"
  define u where "u = stack_at (undo_stacks st) i"
  define r where "r = stack_at (redo_stacks st) i"
  have uv: "map (\<lambda>a. store st ! a) u = us @ [x]"
    using assms(3) by (simp add: undo_view_def u_def i_def)
  then have ne: "u \<noteq> []" by auto
  note rg = page_of_range[OF pg, folded i_def]
  have ub: "i < int (length (pages st))"
    using pg by (auto simp: page_of_def i_def split: if_splits)
  define st' where "st' = st\<lparr>store := store st @ [store st ! canvas pg],
             undo_stacks := (undo_stacks st)(i \<mapsto> butlast u),
             redo_stacks := (redo_stacks st)(i \<mapsto> r @ [length (store st)]),
             pages := (pages st)[nat i := pg\<lparr>canvas := last u\<rparr>]\<rparr>"
  have e: "undo st = Inr st'"
    using undo_page[OF pg] ne by (simp add: st'_def i_def u_def r_def)
  have ltu: "\<forall>a \<in> set u. a < length (store st)"
    using stack_refs_snapshots(1) snapshot_not_canvas(1)[OF assms(1)] unfolding u_def by blast
  have ltr: "\<forall>a \<in> set r. a < length (store st)"
    using stack_refs_snapshots(2) snapshot_not_canvas(1)[OF assms(1)] unfolding r_def by blast
  have lb: "\<forall>a \<in> set (butlast u). a < length (store st)"
    using ltu by (meson in_set_butlastD)
  have last: "last u < length (store st)" using ltu ne by simp
  have "buffer st' = Some (store st ! last u)"
    using rg ub last by (simp add: buffer_def page_of_def st'_def nth_append i_def[symmetric])
  also have "store st ! last u = x"
    using uv ne by (metis last_map last_snoc)
  finally have 1: "buffer st' = Some x" .
  have "undo_view st' = map (\<lambda>a. store st ! a) (butlast u)"
    using lb by (simp add: undo_view_def st'_def stack_at_def map_store_append i_def)
  also have "\<dots> = us" using uv by (metis butlast_snoc map_butlast)
  finally have 2: "undo_view st' = us" .
  have 3: "redo_view st' = redo_view st @ [b]"
    using ltr by (simp add: redo_view_def st'_def stack_at_def map_store_append b
        i_def[symmetric] r_def[symmetric]) (simp add: r_def stack_at_def)
  from e 1 2 3 heap_ok_undo[OF assms(1) e] show ?thesis by blast
qed

lemma redo_view_step:
  assumes "heap_ok st" and "buffer st = Some b" and "redo_view st = rs @ [x]"
  shows "\<exists>st'. redo st = Inr st' \<and> heap_ok st' \<and> buffer st' = Some x \<and>
           redo_view st' = rs \<and> undo_view st' = undo_view st @ [b]"
proof -
  from assms(2) obtain pg where pg: "page_of st = Some pg" and b: "b = store st ! canvas pg"
    by (auto simp: buffer_def split: option.splits)
  define i where "i = current_page_idx st"
  define u where "u = stack_at (undo_stacks st) i"
  define r where "r = stack_at (redo_stacks st) i"
  have rv: "map (\<lambda>a. store st ! a) r = rs @ [x]"
    using assms(3) by (simp add: redo_view_def r_def i_def)
  then have ne: "r \<noteq> []" by auto
  note rg = page_of_range[OF pg, folded i_def]
  have ub: "i < int (length (pages st))"
    using pg by (auto simp: page_of_def i_def split: if_splits)
  define st' where "st' = st\<lparr>store := store st @ [store st ! canvas pg],
             redo_stacks := (redo_stacks st)(i \<mapsto> butlast r),
             undo_stacks := (undo_stacks st)(i \<mapsto> u @ [length (store st)]),
             pages := (pages st)[nat i := pg\<lparr>canvas := last r\<rparr>]\<rparr>"
  have e: "redo st = Inr st'"
    using redo_page[OF pg] ne by (simp add: st'_def i_def u_def r_def)
  have ltu: "\<forall>a \<in> set u. a < length (store st)"
    using stack_refs_snapshots(1) snapshot_not_canvas(1)[OF assms(1)] unfolding u_def by blast
  have ltr: "\<forall>a \<in> set r. a < length (store st)"
    using stack_refs_snapshots(2) snapshot_not_canvas(1)[OF assms(1)] unfolding r_def by blast
  have lb: "\<forall>a \<in> set (butlast r). a < length (store st)"
    using ltr by (meson in_set_butlastD)
  have last: "last r < length (store st)" using ltr ne by simp
  have "buffer st' = Some (store st ! last r)"
    using rg ub last by (simp add: buffer_def page_of_def st'_def nth_append i_def[symmetric])
  also have "store st ! last r = x"
    using rv ne by (metis last_map last_snoc)
  finally have 1: "buffer st' = Some x" .
  have "redo_view st' = map (\<lambda>a. store st ! a) (butlast r)"
    using lb by (simp add: redo_view_def st'_def stack_at_def map_store_append i_def)
  also have "\<dots> = rs" using rv by (metis butlast_snoc map_butlast)
  finally have 2: "redo_view st' = rs" .
  have 3: "undo_view st' = undo_view st @ [b]"
    using ltu by (simp add: undo_view_def st'_def stack_at_def map_store_append b
        i_def[symmetric] u_def[symmetric]) (simp add: u_def stack_at_def)
  from e 1 2 3 heap_ok_redo[OF assms(1) e] show ?thesis by blast
qed

text \<open>
  A step that paints the canvas of the current page, and changes no reference held and
  no other pixmap, keeps the pixmaps on the stacks.
\<close>

lemma mutate_view:
  assumes "heap_ok st" and "page_of st = Some pg"
    and "map canvas (pages st') = map canvas (pages st)"
    and "current_page_idx st' = current_page_idx st"
    and "undo_stacks st' = undo_stacks st" and "redo_stacks st' = redo_stacks st"
    and "length (store st') = length (store st)"
    and "\<forall>a. a \<noteq> canvas pg \<longrightarrow> store st' ! a = store st ! a"
  shows "heap_ok st'" and "\<exists>pg'. page_of st' = Some pg' \<and> canvas pg' = canvas pg"
    and "undo_view st' = undo_view st" and "redo_view st' = redo_view st"
proof -
  show "heap_ok st'" using assms(1,3,5,6,7) by (rule heap_ok_same)
  have len: "length (pages st') = length (pages st)"
    using assms(3) by (metis length_map)
  note rg = page_of_range[OF assms(2)]
  have "canvas (pages st' ! nat (current_page_idx st)) = canvas pg"
    using assms(3) rg len by (metis nth_map)
  then show "\<exists>pg'. page_of st' = Some pg' \<and> canvas pg' = canvas pg"
    using assms(2,4) len by (auto simp: page_of_def split: if_splits)
  have "\<forall>a \<in> set (stack_at (undo_stacks st) (current_page_idx st)). a \<noteq> canvas pg"
    using stack_refs_snapshots(1) snapshot_not_live[OF assms(1)] assms(2) by blast
  then show "undo_view st' = undo_view st"
    using assms(4,5,8) by (simp add: undo_view_def)
  have "\<forall>a \<in> set (stack_at (redo_stacks st) (current_page_idx st)). a \<noteq> canvas pg"
    using stack_refs_snapshots(2) snapshot_not_live[OF assms(1)] assms(2) by blast
  then show "redo_view st' = redo_view st"
    using assms(4,6,8) by (simp add: redo_view_def)
qed

lemma mouseMove_keeps:
  "pages (mouseMoveEvent q b pos st) = pages st"
  "current_page_idx (mouseMoveEvent q b pos st) = current_page_idx st"
  "undo_stacks (mouseMoveEvent q b pos st) = undo_stacks st"
  "redo_stacks (mouseMoveEvent q b pos st) = redo_stacks st"
  "length (store (mouseMoveEvent q b pos st)) = length (store st)"
  by (auto simp: mouseMoveEvent_def drawing_rect_def drag_floating_def draw_segment_def
      paint_def Let_def split: option.splits prod.splits)

lemma mouse_moves_keeps:
  "pages (mouse_moves q ms st) = pages st \<and>
   current_page_idx (mouse_moves q ms st) = current_page_idx st \<and>
   undo_stacks (mouse_moves q ms st) = undo_stacks st \<and>
   redo_stacks (mouse_moves q ms st) = redo_stacks st \<and>
   length (store (mouse_moves q ms st)) = length (store st) \<and>
   (\<forall>a. (\<forall>pg. page_of st = Some pg \<longrightarrow> canvas pg \<noteq> a) \<longrightarrow>
      store (mouse_moves q ms st) ! a = store st ! a)"
proof (induction ms arbitrary: st)
  case Nil
  then show ?case by simp
next
  case (Cons m ms)
  let ?st = "mouseMoveEvent q (fst m) (snd m) st"
  have p: "page_of ?st = page_of st"
    by (simp add: page_of_def mouseMove_keeps)
  show ?case
    using Cons.IH[of ?st] frame_mouseMove(1)[of st q "fst m" "snd m"]
    by (simp add: mouseMove_keeps p)
qed

text \<open>A destructive operation pushes the old buffer and empties the redo stack.\<close>

lemma destructive_op_view:
  assumes "destructive_op q st st'" and "heap_ok st"
  shows "\<exists>b b'. buffer st = Some b \<and> heap_ok st' \<and> buffer st' = Some b' \<and>
           undo_view st' = undo_view st @ [b] \<and> redo_view st' = []"
  using assms(1)
proof cases
  case stamp
  then obtain fi where fi: "floating_image st = Some fi" by auto
  from stamp fi obtain pg where pg: "page_of st = Some pg"
    by (cases "page_of st") (auto simp: toggle_move_mode_def snapshot_no_page)
  obtain st1 where s: "snapshot st = Inr st1" using snapshot_page[OF pg] by simp
  have pg1: "page_of st1 = Some pg" using snapshot_keeps(1)[OF s] pg by simp
  have st': "st' = (paint (canvas pg) (drawPixmap q (floating_pos st1) fi) st1)
                      \<lparr>floating_image := None, move_mode := False\<rparr>"
    using stamp fi s pg1 by (simp add: toggle_move_mode_def)
  have b: "buffer st = Some (store st ! canvas pg)" using pg by (simp add: buffer_def)
  note v = snapshot_view[OF assms(2) s b]
  have m: "heap_ok st'" "\<exists>pg'. page_of st' = Some pg' \<and> canvas pg' = canvas pg"
    "undo_view st' = undo_view st1" "redo_view st' = redo_view st1"
    by (rule mutate_view[OF v(1) pg1]; simp add: st' paint_def)+
  from m(2) have "\<exists>b'. buffer st' = Some b'" by (auto simp: buffer_def)
  with b v m show ?thesis by auto
next
  case (background fname)
  then obtain pg where pg: "page_of st = Some pg" by auto
  obtain st1 where s: "snapshot st = Inr st1" using snapshot_page[OF pg] by simp
  have pg1: "page_of st1 = Some pg" using snapshot_keeps(1)[OF s] pg by simp
  note rg = page_of_range[OF pg1]
  have st': "st' = (paint (canvas pg) (drawPixmap q (0, 0)
        (scaled q (QPixmap_of_file q fname) (pm_width (store st1 ! canvas pg))
           (pm_height (store st1 ! canvas pg)))) st1)
      \<lparr>pages := (pages st1)[nat (current_page_idx st1) := pg\<lparr>bg_image := Some fname\<rparr>]\<rparr>"
    using background s pg1
    by (simp add: set_background_image_def Page_set_background_def Let_def) (simp add: paint_def)
  have mc: "map canvas (pages st') = map canvas (pages st1)"
    using rg by (simp add: st' paint_def map_update) (metis list_update_id nth_map length_map)
  have b: "buffer st = Some (store st ! canvas pg)" using pg by (simp add: buffer_def)
  note v = snapshot_view[OF assms(2) s b]
  have m: "heap_ok st'" "\<exists>pg'. page_of st' = Some pg' \<and> canvas pg' = canvas pg"
    "undo_view st' = undo_view st1" "redo_view st' = redo_view st1"
    by (rule mutate_view[OF v(1) pg1 mc]; simp add: st' paint_def)+
  from m(2) have "\<exists>b'. buffer st' = Some b'" by (auto simp: buffer_def)
  with b v m show ?thesis by auto
next
  case (stroke pos st1 ms)
  define local where "local = (fst pos, snd pos - toolbar_height st)"
  define st0 where
    "st0 = st\<lparr>canvas_top := toolbar_height st, drawing := True, last_point := local\<rparr>"
  from stroke(1) obtain pg where pg: "page_of st = Some pg"
    by (auto simp: in_canvas_def split: option.splits)
  have s: "snapshot st0 = Inr st1"
    using stroke pg
    by (simp add: mousePressEvent_def drawing_rect_def inside_floating_def st0_def local_def)
  have b: "buffer st = Some (store st ! canvas pg)" using pg by (simp add: buffer_def)
  have m0: "heap_ok st0" "undo_view st0 = undo_view st" "redo_view st0 = redo_view st"
    by (rule mutate_view[OF assms(2) pg]; simp add: st0_def)+
  have pg0: "page_of st0 = Some pg" using pg by (simp add: st0_def)
  have b0: "buffer st0 = Some (store st ! canvas pg)" using pg by (simp add: buffer_def st0_def)
  note v = snapshot_view[OF m0(1) s b0]
  have pg1: "page_of st1 = Some pg" using snapshot_keeps(1)[OF s] pg0 by simp
  note k = mouse_moves_keeps[of q ms st1]
  have fr: "\<forall>a. a \<noteq> canvas pg \<longrightarrow> store st' ! a = store st1 ! a"
    using k pg1 by (simp add: stroke(6) mouseReleaseEvent_def)
  have m: "heap_ok st'" "\<exists>pg'. page_of st' = Some pg' \<and> canvas pg' = canvas pg"
    "undo_view st' = undo_view st1" "redo_view st' = redo_view st1"
    by (rule mutate_view[OF v(1) pg1 _ _ _ _ _ fr]; simp add: stroke(6) mouseReleaseEvent_def k)+
  from m(2) have "\<exists>b'. buffer st' = Some b'" by (auto simp: buffer_def)
  with b v m m0 show ?thesis by auto
qed

lemma edits_view:
  assumes "edits q n st st1" and "heap_ok st"
  shows "heap_ok st1 \<and> (n = 0 \<longrightarrow> st1 = st) \<and>
         (0 < n \<longrightarrow> (\<exists>b b1 bs. buffer st = Some b \<and> buffer st1 = Some b1 \<and>
                        length bs = n \<and> hd bs = b \<and>
                        undo_view st1 = undo_view st @ bs \<and> redo_view st1 = []))"
  using assms
proof (induction rule: edits.induct)
  case (edits_none st)
  then show ?case by simp
next
  case (edits_more n st st1 st2)
  from edits_more.IH[OF edits_more.prems] have ok1: "heap_ok st1"
    and z: "n = 0 \<longrightarrow> st1 = st"
    and p: "0 < n \<longrightarrow> (\<exists>b b1 bs. buffer st = Some b \<and> buffer st1 = Some b1 \<and>
                        length bs = n \<and> hd bs = b \<and>
                        undo_view st1 = undo_view st @ bs \<and> redo_view st1 = [])"
    by blast+
  from destructive_op_view[OF edits_more.hyps(2) ok1] obtain b1 b2 where
    d: "buffer st1 = Some b1" "heap_ok st2" "buffer st2 = Some b2"
      "undo_view st2 = undo_view st1 @ [b1]" "redo_view st2 = []"
    by blast
  have "\<exists>b bs. buffer st = Some b \<and> length bs = Suc n \<and> hd bs = b \<and>
          undo_view st2 = undo_view st @ bs"
  proof (cases "n = 0")
    case True
    with z have "st1 = st" by simp
    with d True show ?thesis by (intro exI[of _ b1] exI[of _ "[b1]"]) simp
  next
    case False
    with p obtain b bs where "buffer st = Some b" "length bs = n" "hd bs = b"
      "undo_view st1 = undo_view st @ bs"
      by auto
    with d False show ?thesis by (intro exI[of _ b] exI[of _ "bs @ [b1]"]) auto
  qed
  with d show ?case by auto
qed

lemma undo_times:
  "heap_ok st \<Longrightarrow> buffer st = Some b \<Longrightarrow> undo_view st = us @ xs \<Longrightarrow>
     \<exists>st'. times (length xs) undo st = Inr st' \<and> heap_ok st' \<and>
           buffer st' = Some (hd (xs @ [b])) \<and> undo_view st' = us \<and>
           redo_view st' = redo_view st @ rev (tl (xs @ [b]))"
proof (induction xs arbitrary: st b rule: rev_induct)
  case Nil
  then show ?case by simp
next
  case (snoc x ys)
  from snoc.prems(3) have "undo_view st = (us @ ys) @ [x]" by simp
  from undo_view_step[OF snoc.prems(1,2) this] obtain s1 where
    s1: "undo st = Inr s1" "heap_ok s1" "buffer s1 = Some x" "undo_view s1 = us @ ys"
      "redo_view s1 = redo_view st @ [b]"
    by blast
  from snoc.IH[OF s1(2,3,4)] obtain st' where
    st': "times (length ys) undo s1 = Inr st'" "heap_ok st'"
      "buffer st' = Some (hd (ys @ [x]))" "undo_view st' = us"
      "redo_view st' = redo_view s1 @ rev (tl (ys @ [x]))"
    by blast
  have "times (length (ys @ [x])) undo st = Inr st'"
    using s1(1) st'(1) by simp
  moreover have "hd ((ys @ [x]) @ [b]) = hd (ys @ [x])" by (cases ys) simp_all
  moreover have "rev (tl ((ys @ [x]) @ [b])) = b # rev (tl (ys @ [x]))" by (cases ys) simp_all
  ultimately show ?case using st' s1(5) by auto
qed

lemma redo_times:
  "heap_ok st \<Longrightarrow> buffer st = Some b \<Longrightarrow> redo_view st = rs @ xs \<Longrightarrow>
     \<exists>st'. times (length xs) redo st = Inr st' \<and> heap_ok st' \<and>
           buffer st' = Some (hd (xs @ [b])) \<and> redo_view st' = rs \<and>
           undo_view st' = undo_view st @ rev (tl (xs @ [b]))"
proof (induction xs arbitrary: st b rule: rev_induct)
  case Nil
  then show ?case by simp
next
  case (snoc x ys)
  from snoc.prems(3) have "redo_view st = (rs @ ys) @ [x]" by simp
  from redo_view_step[OF snoc.prems(1,2) this] obtain s1 where
    s1: "redo st = Inr s1" "heap_ok s1" "buffer s1 = Some x" "redo_view s1 = rs @ ys"
      "undo_view s1 = undo_view st @ [b]"
    by blast
  from snoc.IH[OF s1(2,3,4)] obtain st' where
    st': "times (length ys) redo s1 = Inr st'" "heap_ok st'"
      "buffer st' = Some (hd (ys @ [x]))" "redo_view st' = rs"
      "undo_view st' = undo_view s1 @ rev (tl (ys @ [x]))"
    by blast
  have "times (length (ys @ [x])) redo st = Inr st'"
    using s1(1) st'(1) by simp
  moreover have "hd ((ys @ [x]) @ [b]) = hd (ys @ [x])" by (cases ys) simp_all
  moreover have "rev (tl ((ys @ [x]) @ [b])) = b # rev (tl (ys @ [x]))" by (cases ys) simp_all
  ultimately show ?case using st' s1(5) by auto
qed

text \<open>
  Claim C2. From a state without sharing (every reachable state is one, lemma
  \<open>reachable_heap_ok\<close>), let \<open>n\<close> destructive operations, each after its one snapshot,
  lead to \<open>st1\<close>. Then \<open>undo\<close> called \<open>n\<close> times returns, and the buffer of the current
  page is the pixmap it was before the first operation, and so are the pixmaps on the
  undo stack; \<open>redo\<close> called \<open>n\<close> times after that returns, and the buffer is the
  pixmap it was after the last operation, and so are the pixmaps on the undo stack.
\<close>

theorem undo_redo_inverse:
  assumes "heap_ok st" and "edits q n st st1"
  shows "\<exists>st2 st3. times n undo st1 = Inr st2 \<and> buffer st2 = buffer st \<and>
           undo_view st2 = undo_view st \<and>
           times n redo st2 = Inr st3 \<and> buffer st3 = buffer st1 \<and>
           undo_view st3 = undo_view st1"
proof (cases "n = 0")
  case True
  with edits_view[OF assms(2,1)] show ?thesis by simp
next
  case False
  with edits_view[OF assms(2,1)] obtain b b1 bs where ok1: "heap_ok st1"
    and v: "buffer st = Some b" "buffer st1 = Some b1" "length bs = n" "hd bs = b"
      "undo_view st1 = undo_view st @ bs" "redo_view st1 = []"
    by auto
  from False v(3) have ne: "bs \<noteq> []" by auto
  from undo_times[OF ok1 v(2) v(5)] v(3) obtain st2 where
    u: "times n undo st1 = Inr st2" "heap_ok st2" "buffer st2 = Some (hd (bs @ [b1]))"
      "undo_view st2 = undo_view st" "redo_view st2 = redo_view st1 @ rev (tl (bs @ [b1]))"
    by auto
  have b2: "buffer st2 = Some b" using u(3) ne v(4) by simp
  have r2: "redo_view st2 = [] @ rev (tl (bs @ [b1]))" using u(5) v(6) by simp
  have ln: "length (rev (tl (bs @ [b1]))) = n" using v(3) by simp
  from redo_times[OF u(2) b2 r2] ln obtain st3 where
    r: "times n redo st2 = Inr st3" "buffer st3 = Some (hd (rev (tl (bs @ [b1])) @ [b]))"
      "undo_view st3 = undo_view st2 @ rev (tl (rev (tl (bs @ [b1])) @ [b]))"
    by auto
  have t: "tl (bs @ [b1]) = tl bs @ [b1]" using ne by simp
  have "buffer st3 = Some b1" using r(2) by (simp add: t)
  moreover have "b # tl bs = bs" using ne v(4) by (cases bs) simp_all
  then have "undo_view st3 = undo_view st1"
    using r(3) u(4) v(5) by (simp add: t)
  ultimately show ?thesis using u(1,4) r(1) b2 v(1,2) by auto
qed

lemma set_background_returns:
  assumes "page_of st = Some pg"
  shows "\<not> isl (set_background_image q fname st)"
proof -
  obtain st1 where s: "snapshot st = Inr st1" using snapshot_page[OF assms] by simp
  have "page_of st1 = Some pg" using snapshot_keeps(1)[OF s] assms by simp
  then show ?thesis
    using s by (simp add: set_background_image_def Page_set_background_def Let_def)
qed

text \<open>
  From the state after \<^verbatim>\<open>__init__\<close>: a stroke (press, one pointer move that paints the
  canvas black, release), then a background image. Two undos give back the white
  buffer, two redos the buffer after the second operation.
\<close>

theorem undo_redo_inverse_witness:
  "heap_ok (projr (Notebook_init qt0 30)) \<and>
   edits qt0 2 (projr (Notebook_init qt0 30))
     (projr (set_background_image qt0 ''missing.png''
        (mouseReleaseEvent LeftButton
           (mouse_moves qt0 [(True, (20, 50))] (projr stroke_started))))) \<and>
   \<not> isl (times 2 undo
     (projr (set_background_image qt0 ''missing.png''
        (mouseReleaseEvent LeftButton
           (mouse_moves qt0 [(True, (20, 50))] (projr stroke_started)))))) \<and>
   buffer (projr (times 2 undo
     (projr (set_background_image qt0 ''missing.png''
        (mouseReleaseEvent LeftButton
           (mouse_moves qt0 [(True, (20, 50))] (projr stroke_started))))))) =
     Some (filled 1200 770 white) \<and>
   buffer (projr (times 2 redo (projr (times 2 undo
     (projr (set_background_image qt0 ''missing.png''
        (mouseReleaseEvent LeftButton
           (mouse_moves qt0 [(True, (20, 50))] (projr stroke_started))))))))) =
     buffer (projr (set_background_image qt0 ''missing.png''
        (mouseReleaseEvent LeftButton
           (mouse_moves qt0 [(True, (20, 50))] (projr stroke_started)))))"
proof -
  define I where "I = projr (Notebook_init qt0 30)"
  define P where "P = projr stroke_started"
  define S1 where "S1 = mouseReleaseEvent LeftButton (mouse_moves qt0 [(True, (20, 50))] P)"
  define S2 where "S2 = projr (set_background_image qt0 ''missing.png'' S1)"
  have i: "Notebook_init qt0 30 = Inr I" by (simp add: I_def Notebook_init_eq)
  then have "reachable qt0 I" by (rule reachable_init)
  then have ok: "heap_ok I" by (rule reachable_heap_ok)
  have press: "mousePressEvent LeftButton (10, 40) I = Inr P"
    using stroke_started_eq i
    by (simp add: P_def stroke_started_def split: sum.splits)
  have Ieq: "I = (fresh 30)\<lparr>store := [filled 1200 (max 200 (800 - 30)) white,
                               filled 1200 (max 200 (800 - 30)) white],
                     pages := [\<lparr>canvas = 0, bg_image = None\<rparr>], current_page_idx := 0,
                     undo_stacks := [0 \<mapsto> [1]], redo_stacks := [0 \<mapsto> []]\<rparr>"
    by (simp add: I_def Notebook_init_eq)
  have c: "in_canvas I (fst (10::int, 40::int), snd (10::int, 40::int) - toolbar_height I)"
    "\<not> eyedropper I" "floating_image I = None" "\<not> move_mode I"
    by (simp_all add: Ieq in_canvas_def page_of_def size_of_def pm_width_filled
        pm_height_filled fresh_def)
  have op1: "destructive_op qt0 I S1"
    using c press S1_def by (rule destructive_op.stroke)
  have pg1: "page_of S1 = Some \<lparr>canvas = 0, bg_image = None\<rparr>"
    using mouse_moves_keeps[of qt0 "[(True, (20, 50))]" P]
    by (simp add: S1_def mouseReleaseEvent_def page_of_def)
      (simp add: P_def stroke_started_eq)
  have bg: "set_background_image qt0 ''missing.png'' S1 = Inr S2"
    using set_background_returns[OF pg1, of qt0 "''missing.png''"] by (simp add: S2_def)
  have op2: "destructive_op qt0 S1 S2"
    by (rule destructive_op.background[OF _ _ bg]) (simp_all add: pg1)
  have e: "edits qt0 2 I S2"
    using edits_more[OF edits_more[OF edits_none op1] op2] by (simp add: numeral_2_eq_2)
  have bI: "buffer I = Some (filled 1200 770 white)"
    by (simp add: Ieq buffer_def page_of_def)
  from undo_redo_inverse[OF ok e] bI
  have "\<not> isl (times 2 undo S2) \<and>
        buffer (projr (times 2 undo S2)) = Some (filled 1200 770 white) \<and>
        buffer (projr (times 2 redo (projr (times 2 undo S2)))) = buffer S2"
    by auto
  with ok e show ?thesis
    unfolding S2_def S1_def P_def I_def by simp
qed

subsection \<open>C3: a background image that cannot be decoded\<close>

lemma drawPixmap_null:
  assumes "0 \<le> x" "x < int (pm_width pm)" "0 \<le> y" "y < int (pm_height pm)"
  shows "pixel (drawPixmap q pos null_pixmap pm) (x, y) = pixel pm (x, y)"
  using assms by (auto simp: drawPixmap_def pixel_repaint Let_def null_pixmap_def)

lemma scaled_undecodable:
  "load_image q fname = None \<Longrightarrow> scaled q (QPixmap_of_file q fname) w h = null_pixmap"
  by (simp add: scaled_def QPixmap_of_file_def isNull_def null_pixmap_def)

text \<open>
  Claim C3, as amended. When the path cannot be decoded, \<open>set_background_image\<close> (for
  a path the dialog returned and a current page) raises no error. The current page
  index is as before, and the buffer of the page has its size and every pixel as
  before. But the call is not without effect: a copy of the buffer has been pushed on
  the undo stack of the page, its redo stack is empty, and the background reference of
  the page is the path.
\<close>

theorem set_background_undecodable:
  assumes "load_image q fname = None" and "fname \<noteq> []"
    and "page_of st = Some pg" and "canvas pg < length (store st)"
  shows "\<exists>st'. set_background_image q fname st = Inr st' \<and>
     current_page_idx st' = current_page_idx st \<and>
     page_of st' = Some (pg\<lparr>bg_image := Some fname\<rparr>) \<and>
     pm_width (store st' ! canvas pg) = pm_width (store st ! canvas pg) \<and>
     pm_height (store st' ! canvas pg) = pm_height (store st ! canvas pg) \<and>
     (\<forall>x y. 0 \<le> x \<and> x < int (pm_width (store st ! canvas pg)) \<and>
            0 \<le> y \<and> y < int (pm_height (store st ! canvas pg)) \<longrightarrow>
        pixel (store st' ! canvas pg) (x, y) = pixel (store st ! canvas pg) (x, y)) \<and>
     undo_stacks st' (current_page_idx st) =
       Some (stack_at (undo_stacks st) (current_page_idx st) @ [length (store st)]) \<and>
     store st' ! length (store st) = store st ! canvas pg \<and>
     redo_stacks st' (current_page_idx st) = Some []"
proof -
  define i where "i = current_page_idx st"
  define st1 where "st1 = st\<lparr>store := store st @ [store st ! canvas pg],
             undo_stacks := (undo_stacks st)(i \<mapsto> stack_at (undo_stacks st) i @ [length (store st)]),
             redo_stacks := (redo_stacks st)(i \<mapsto> [])\<rparr>"
  define st2 where "st2 = paint (canvas pg) (drawPixmap q (0, 0) null_pixmap) st1"
  define st' where "st' = st2\<lparr>pages := (pages st2)[nat i := pg\<lparr>bg_image := Some fname\<rparr>]\<rparr>"
  have in_range: "0 \<le> i" "nat i < length (pages st)"
    using assms(3) by (auto simp: page_of_def i_def split: if_splits)
  have s1: "snapshot st = Inr st1" "page_of st1 = Some pg"
    using assms(3) by (simp_all add: snapshot_page st1_def i_def)
  have bg: "Page_set_background q fname pg st1 = (pg\<lparr>bg_image := Some fname\<rparr>, st2)"
    by (simp add: Page_set_background_def Let_def scaled_undecodable[OF assms(1)] st2_def)
  have t: "set_background_image q fname st = Inr st'"
    using assms(2,3) s1 bg
    by (simp add: set_background_image_def st'_def) (simp add: st2_def st1_def paint_def i_def)
  have c: "store st' ! canvas pg = drawPixmap q (0, 0) null_pixmap (store st ! canvas pg)"
    using assms(4) by (simp add: st'_def st2_def st1_def paint_def nth_append)
  have "page_of st' = Some (pg\<lparr>bg_image := Some fname\<rparr>)"
    using in_range by (simp add: page_of_def st'_def st2_def st1_def paint_def i_def)
  moreover have "store st' ! length (store st) = store st ! canvas pg"
    using assms(4) by (simp add: st'_def st2_def st1_def paint_def nth_append)
  moreover have "current_page_idx st' = i"
    "undo_stacks st' i = Some (stack_at (undo_stacks st) i @ [length (store st)])"
    "redo_stacks st' i = Some []"
    by (simp_all add: st'_def st2_def st1_def paint_def i_def)
  moreover have "pm_width (store st' ! canvas pg) = pm_width (store st ! canvas pg)"
    "pm_height (store st' ! canvas pg) = pm_height (store st ! canvas pg)"
    unfolding c by (simp_all add: drawPixmap_def)
  moreover have "\<forall>x y. 0 \<le> x \<and> x < int (pm_width (store st ! canvas pg)) \<and>
            0 \<le> y \<and> y < int (pm_height (store st ! canvas pg)) \<longrightarrow>
        pixel (store st' ! canvas pg) (x, y) = pixel (store st ! canvas pg) (x, y)"
    unfolding c by (simp add: drawPixmap_null)
  ultimately show ?thesis using t unfolding i_def by blast
qed

text \<open>On the board, with a Qt that cannot decode the file.\<close>

theorem set_background_undecodable_witness:
  "load_image qt0 ''missing.png'' = None \<and>
   page_of board = Some \<lparr>canvas = 0, bg_image = None\<rparr> \<and>
   \<not> isl (set_background_image qt0 ''missing.png'' board) \<and>
   page_of (projr (set_background_image qt0 ''missing.png'' board)) =
     Some \<lparr>canvas = 0, bg_image = Some ''missing.png''\<rparr> \<and>
   pixel (store (projr (set_background_image qt0 ''missing.png'' board)) ! 0) (3, 4) =
     pixel (store board ! 0) (3, 4) \<and>
   redo_stacks (projr (set_background_image qt0 ''missing.png'' board)) 0 = Some []"
proof -
  define pg where "pg = \<lparr>canvas = 0, bg_image = None\<rparr>"
  have a: "load_image qt0 ''missing.png'' = None" by (simp add: qt0_def)
  have b: "''missing.png'' \<noteq> []" by simp
  have c: "page_of board = Some pg" by (simp add: pg_def page_of_board)
  have d: "canvas pg < length (store board)" by (simp add: pg_def store_board)
  have e: "canvas pg = 0" "current_page_idx board = 0"
    "pm_width (store board ! 0) = 100" "pm_height (store board ! 0) = 100"
    by (simp_all add: pg_def store_board pm_width_filled pm_height_filled)
      (simp add: board_def fresh_def)
  from set_background_undecodable[OF a b c d] obtain st' where
    t: "set_background_image qt0 ''missing.png'' board = Inr st'"
    and p: "page_of st' = Some (pg\<lparr>bg_image := Some ''missing.png''\<rparr>)"
    and px: "\<forall>x y. 0 \<le> x \<and> x < int (pm_width (store board ! canvas pg)) \<and>
            0 \<le> y \<and> y < int (pm_height (store board ! canvas pg)) \<longrightarrow>
        pixel (store st' ! canvas pg) (x, y) = pixel (store board ! canvas pg) (x, y)"
    and r: "redo_stacks st' (current_page_idx board) = Some []"
    by blast
  have "pixel (store st' ! 0) (3, 4) = pixel (store board ! 0) (3, 4)"
    using px[rule_format, of 3 4] by (simp add: e)
  then show ?thesis
    unfolding t using a c p r by (simp add: e pg_def)
qed

text \<open>
  The claim as stated fails: on the board the call returns without an error, the undo
  stack of the page has grown from one snapshot to two, and the page refers to the
  file that could not be decoded.
\<close>

theorem set_background_undecodable_mutates:
  "load_image qt0 ''missing.png'' = None \<and>
   \<not> isl (set_background_image qt0 ''missing.png'' board) \<and>
   undo_stacks board 0 = Some [1] \<and>
   undo_stacks (projr (set_background_image qt0 ''missing.png'' board)) 0 = Some [1, 2] \<and>
   bg_image (pages board ! 0) = None \<and>
   bg_image (pages (projr (set_background_image qt0 ''missing.png'' board)) ! 0) =
     Some ''missing.png''"
proof -
  have s: "snapshot board =
      Inr (board\<lparr>store := store board @ [store board ! 0],
                 undo_stacks := [0 \<mapsto> [1, 2]], redo_stacks := [0 \<mapsto> []]\<rparr>)"
    using snapshot_page[OF page_of_board]
    by (simp add: board_def fresh_def stack_at_def numeral_2_eq_2)
  have b: "undo_stacks board 0 = Some [1]" "bg_image (pages board ! 0) = None"
    "current_page_idx board = 0" "pages board = [\<lparr>canvas = 0, bg_image = None\<rparr>]"
    by (simp_all add: board_def fresh_def)
  have "set_background_image qt0 ''missing.png'' board =
      Inr ((paint 0 (drawPixmap qt0 (0, 0) null_pixmap)
             (board\<lparr>store := store board @ [store board ! 0],
                 undo_stacks := [0 \<mapsto> [1, 2]], redo_stacks := [0 \<mapsto> []]\<rparr>))
           \<lparr>pages := [\<lparr>canvas = 0, bg_image = Some ''missing.png''\<rparr>]\<rparr>)"
    unfolding set_background_image_def
    by (simp add: page_of_board s Page_set_background_def Let_def scaled_undecodable qt0_def
        paint_def b)
  then show ?thesis by (simp add: b qt0_def paint_def)
qed

subsection \<open>C4: committing the overlay\<close>

text \<open>
  Claim C4. With a floating image, move mode on (the Placed state) and a current page,
  \<open>toggle_move_mode\<close> returns a state in which: the undo stack of the page has a new
  last entry, a fresh pixmap equal to the buffer before the blit; the buffer is the old
  buffer with the overlay drawn at its position; there is no floating image and move
  mode is off (Absent). For a red overlay of 20 by 20 at \<open>(45, 45)\<close> on a white buffer
  of 100 by 100, the buffer is still 100 by 100 and its pixel at \<open>(x, y)\<close> is red when
  \<open>45 \<le> x < 65\<close> and \<open>45 \<le> y < 65\<close>, and white elsewhere.
\<close>

theorem commit_stamps_overlay:
  assumes "floating_image st = Some fi" and "move_mode st"
    and "page_of st = Some pg" and "canvas pg < length (store st)"
  shows "\<exists>st'. toggle_move_mode q st = Inr st' \<and>
     undo_stacks st' (current_page_idx st) =
       Some (stack_at (undo_stacks st) (current_page_idx st) @ [length (store st)]) \<and>
     store st' ! length (store st) = store st ! canvas pg \<and>
     page_of st' = Some pg \<and>
     store st' ! canvas pg = drawPixmap q (floating_pos st) fi (store st ! canvas pg) \<and>
     floating_image st' = None \<and> \<not> move_mode st' \<and>
     (store st ! canvas pg = filled 100 100 white \<and> fi = filled 20 20 red \<and>
      floating_pos st = (45, 45) \<longrightarrow>
        pm_width (store st' ! canvas pg) = 100 \<and> pm_height (store st' ! canvas pg) = 100 \<and>
        (\<forall>x y. 0 \<le> x \<and> x < 100 \<and> 0 \<le> y \<and> y < 100 \<longrightarrow>
           pixel (store st' ! canvas pg) (x, y) =
             (if 45 \<le> x \<and> x < 65 \<and> 45 \<le> y \<and> y < 65 then red else white)))"
proof -
  define i where "i = current_page_idx st"
  define st1 where "st1 = st\<lparr>store := store st @ [store st ! canvas pg],
             undo_stacks := (undo_stacks st)(i \<mapsto> stack_at (undo_stacks st) i @ [length (store st)]),
             redo_stacks := (redo_stacks st)(i \<mapsto> [])\<rparr>"
  define st' where "st' = (paint (canvas pg) (drawPixmap q (floating_pos st) fi) st1)
                            \<lparr>floating_image := None, move_mode := False\<rparr>"
  have t: "toggle_move_mode q st = Inr st'"
    using assms by (simp add: toggle_move_mode_def snapshot_page st'_def st1_def i_def)
  have s: "store st' ! canvas pg = drawPixmap q (floating_pos st) fi (store st ! canvas pg)"
    using assms(4) by (simp add: st'_def st1_def paint_def nth_append)
  have s2: "store st' ! length (store st) = store st ! canvas pg"
    using assms(4) by (simp add: st'_def st1_def paint_def nth_append)
  have u: "undo_stacks st' i = Some (stack_at (undo_stacks st) i @ [length (store st)])"
    by (simp add: st'_def st1_def paint_def)
  have f: "page_of st' = Some pg" "floating_image st' = None" "\<not> move_mode st'"
    using assms(3) by (simp_all add: st'_def st1_def)
  have scen: "pm_width (store st' ! canvas pg) = 100 \<and> pm_height (store st' ! canvas pg) = 100 \<and>
        (\<forall>x y. 0 \<le> x \<and> x < 100 \<and> 0 \<le> y \<and> y < 100 \<longrightarrow>
           pixel (store st' ! canvas pg) (x, y) =
             (if 45 \<le> x \<and> x < 65 \<and> 45 \<le> y \<and> y < 65 then red else white))"
    if h: "store st ! canvas pg = filled 100 100 white" "fi = filled 20 20 red"
      "floating_pos st = (45, 45)"
  proof -
    have w: "pm_width (filled 100 100 white) = 100" "pm_height (filled 100 100 white) = 100"
      "pm_width (filled 20 20 red) = 20" "pm_height (filled 20 20 red) = 20"
      by (simp_all add: pm_width_filled pm_height_filled)
    have px: "pixel (drawPixmap q (45, 45) (filled 20 20 red) (filled 100 100 white)) (x, y) =
             (if 45 \<le> x \<and> x < 65 \<and> 45 \<le> y \<and> y < 65 then red else white)"
      if "0 \<le> x" "x < 100" "0 \<le> y" "y < 100" for x y
    proof (cases "45 \<le> x \<and> x < 65 \<and> 45 \<le> y \<and> y < 65")
      case True
      then have "pixel (filled 20 20 red) (x - 45, y - 45) = red"
        by (simp add: pixel_filled)
      moreover have "alpha red = 255" by (simp add: red_def)
      ultimately show ?thesis
        unfolding drawPixmap_def using that True
        by (simp add: pixel_repaint w pixel_filled Let_def source_over_def)
    next
      case False
      then show ?thesis
        unfolding drawPixmap_def using that
        by (auto simp: pixel_repaint w pixel_filled Let_def)
    qed
    have e: "store st' ! canvas pg = drawPixmap q (45, 45) (filled 20 20 red) (filled 100 100 white)"
      using s h by simp
    have "pm_width (store st' ! canvas pg) = 100" "pm_height (store st' ! canvas pg) = 100"
      unfolding e by (simp_all add: drawPixmap_def w)
    then show ?thesis unfolding e using px by simp
  qed
  show ?thesis
    using t s s2 u f scen unfolding i_def by blast
qed

text \<open>
  The scenario on the board: the sticker placed at \<open>(45, 45)\<close> is committed. The old
  buffer is pushed as reference 2, the overlay is gone, the pixel at \<open>(45, 45)\<close> is
  red and the pixel at \<open>(44, 45)\<close> is white.
\<close>

theorem commit_stamps_overlay_witness:
  "\<not> isl (toggle_move_mode qt0
      (board\<lparr>floating_image := Some sticker, floating_pos := (45, 45), move_mode := True\<rparr>)) \<and>
   undo_stacks (projr (toggle_move_mode qt0
      (board\<lparr>floating_image := Some sticker, floating_pos := (45, 45), move_mode := True\<rparr>))) 0
     = Some [1, 2] \<and>
   floating_image (projr (toggle_move_mode qt0
      (board\<lparr>floating_image := Some sticker, floating_pos := (45, 45), move_mode := True\<rparr>)))
     = None \<and>
   pixel (store (projr (toggle_move_mode qt0
      (board\<lparr>floating_image := Some sticker, floating_pos := (45, 45), move_mode := True\<rparr>))) ! 0)
     (45, 45) = red \<and>
   pixel (store (projr (toggle_move_mode qt0
      (board\<lparr>floating_image := Some sticker, floating_pos := (45, 45), move_mode := True\<rparr>))) ! 0)
     (44, 45) = white"
proof -
  define st where
    "st = board\<lparr>floating_image := Some sticker, floating_pos := (45, 45), move_mode := True\<rparr>"
  define pg where "pg = \<lparr>canvas = 0, bg_image = None\<rparr>"
  have a: "floating_image st = Some sticker" "move_mode st" by (simp_all add: st_def)
  have b: "page_of st = Some pg" by (simp add: st_def pg_def page_of_board)
  have c: "canvas pg < length (store st)" by (simp add: st_def pg_def store_board)
  have d: "store st ! canvas pg = filled 100 100 white" "sticker = filled 20 20 red"
    "floating_pos st = (45, 45)" "current_page_idx st = 0" "length (store st) = 2"
    "stack_at (undo_stacks st) 0 = [1]" "canvas pg = 0"
    by (simp_all add: st_def pg_def store_board sticker_def)
      (simp_all add: board_def fresh_def stack_at_def)
  from commit_stamps_overlay[OF a b c, of qt0] obtain st' where
    t: "toggle_move_mode qt0 st = Inr st'"
    and u: "undo_stacks st' (current_page_idx st) =
       Some (stack_at (undo_stacks st) (current_page_idx st) @ [length (store st)])"
    and f: "floating_image st' = None"
    and px: "\<forall>x y. 0 \<le> x \<and> x < 100 \<and> 0 \<le> y \<and> y < 100 \<longrightarrow>
           pixel (store st' ! canvas pg) (x, y) =
             (if 45 \<le> x \<and> x < 65 \<and> 45 \<le> y \<and> y < 65 then red else white)"
    using d(1-3) by blast
  have "pixel (store st' ! 0) (45, 45) = red" "pixel (store st' ! 0) (44, 45) = white"
    using px[rule_format, of 45 45] px[rule_format, of 44 45] by (simp_all add: d)
  then show ?thesis
    unfolding st_def[symmetric] t using u f by (simp add: d)
qed

subsection \<open>C5: a dragged overlay stays on the page\<close>

lemma mouseMove_drag:
  assumes "page_of st = Some pg" "floating_image st = Some fi" "move_mode st" "drawing st"
  shows "mouseMoveEvent q b pos st =
     drag_floating fi (fst pos, snd pos - toolbar_height st) pg
       (st\<lparr>canvas_top := toolbar_height st\<rparr>)"
  using assms by (simp add: mouseMoveEvent_def drawing_rect_def)

lemma drag_keeps:
  assumes "page_of st = Some pg" "floating_image st = Some fi" "move_mode st" "drawing st"
  shows "page_of (mouseMoveEvent q b pos st) = Some pg"
    and "floating_image (mouseMoveEvent q b pos st) = Some fi"
    and "move_mode (mouseMoveEvent q b pos st)"
    and "drawing (mouseMoveEvent q b pos st)"
    and "store (mouseMoveEvent q b pos st) = store st"
  unfolding mouseMove_drag[OF assms]
  using assms by (simp_all add: drag_floating_def Let_def split: prod.splits)

lemma drag_clamps:
  assumes "page_of st = Some pg" "floating_image st = Some fi" "move_mode st" "drawing st"
  shows "floating_pos (mouseMoveEvent q b pos st) =
     (max 0 (min (fst (floating_pos st) + (fst pos - fst (last_point st)))
                 (int (pm_width (store st ! canvas pg)) - int (pm_width fi))),
      max 0 (min (snd (floating_pos st) + (snd pos - toolbar_height st - snd (last_point st)))
                 (int (pm_height (store st ! canvas pg)) - int (pm_height fi))))"
  unfolding mouseMove_drag[OF assms]
  by (simp add: drag_floating_def Let_def size_of_def)

lemma mouse_moves_drag:
  assumes "page_of st = Some pg" "floating_image st = Some fi" "move_mode st" "drawing st"
    and "ms \<noteq> []"
  shows "\<exists>st0 m. page_of st0 = Some pg \<and> floating_image st0 = Some fi \<and> move_mode st0 \<and>
            drawing st0 \<and> store st0 = store st \<and>
            mouse_moves q ms st = mouseMoveEvent q (fst m) (snd m) st0"
  using assms
proof (induction ms arbitrary: st)
  case Nil
  then show ?case by simp
next
  case (Cons m ms)
  let ?st = "mouseMoveEvent q (fst m) (snd m) st"
  note k = drag_keeps[OF Cons.prems(1-4), of q "fst m" "snd m"]
  show ?case
  proof (cases "ms = []")
    case True
    then show ?thesis
      by (intro exI[of _ st] exI[of _ m]) (use Cons.prems in simp)
  next
    case False
    from Cons.IH[OF k(1-4) False] k(5) show ?thesis by auto
  qed
qed

text \<open>
  Claim C5. A drag is the state in which \<^verbatim>\<open>mouseMoveEvent\<close> takes its first branch: a
  page, a floating image, move mode on and the \<open>drawing\<close> flag set. After every nonempty
  sequence of pointer moves from there (so after each update), with arbitrary pointer
  positions and buttons, the overlay's position has \<open>0 \<le> x\<close>, \<open>0 \<le> y\<close>,
  \<open>x \<le> pw - ow\<close> when \<open>ow \<le> pw\<close> and \<open>y \<le> ph - oh\<close> when \<open>oh \<le> ph\<close>; on an axis
  where the overlay is larger than the page the coordinate is 0.
\<close>

theorem drag_clamped:
  assumes "page_of st = Some pg" and "floating_image st = Some fi"
    and "move_mode st" and "drawing st" and "ms \<noteq> []"
  shows "let pos = floating_pos (mouse_moves q ms st);
             pw = int (pm_width (store st ! canvas pg));
             ph = int (pm_height (store st ! canvas pg));
             ow = int (pm_width fi); oh = int (pm_height fi)
         in 0 \<le> fst pos \<and> 0 \<le> snd pos \<and>
            (ow \<le> pw \<longrightarrow> fst pos \<le> pw - ow) \<and> (oh \<le> ph \<longrightarrow> snd pos \<le> ph - oh) \<and>
            (pw < ow \<longrightarrow> fst pos = 0) \<and> (ph < oh \<longrightarrow> snd pos = 0)"
proof -
  from mouse_moves_drag[OF assms] obtain st0 m where
    k: "page_of st0 = Some pg" "floating_image st0 = Some fi" "move_mode st0" "drawing st0"
    and s: "store st0 = store st"
    and e: "mouse_moves q ms st = mouseMoveEvent q (fst m) (snd m) st0"
    by blast
  show ?thesis
    unfolding e drag_clamps[OF k] s Let_def by auto
qed

text \<open>
  The sticker dragged on the board far to the right and down, then far to the left and
  up: after the first move it is at most at \<open>(80, 80)\<close>, after both at least at \<open>(0, 0)\<close>.
\<close>

theorem drag_clamped_witness:
  "page_of (board\<lparr>floating_image := Some sticker, move_mode := True, drawing := True\<rparr>) =
     Some \<lparr>canvas = 0, bg_image = None\<rparr> \<and>
   fst (floating_pos (mouse_moves qt0 [(True, (500, 700))]
     (board\<lparr>floating_image := Some sticker, move_mode := True, drawing := True\<rparr>))) \<le> 80 \<and>
   snd (floating_pos (mouse_moves qt0 [(True, (500, 700))]
     (board\<lparr>floating_image := Some sticker, move_mode := True, drawing := True\<rparr>))) \<le> 80 \<and>
   0 \<le> fst (floating_pos (mouse_moves qt0 [(True, (500, 700)), (False, (- 900, - 900))]
     (board\<lparr>floating_image := Some sticker, move_mode := True, drawing := True\<rparr>))) \<and>
   0 \<le> snd (floating_pos (mouse_moves qt0 [(True, (500, 700)), (False, (- 900, - 900))]
     (board\<lparr>floating_image := Some sticker, move_mode := True, drawing := True\<rparr>)))"
proof -
  define st where
    "st = board\<lparr>floating_image := Some sticker, move_mode := True, drawing := True\<rparr>"
  have pg: "page_of st = Some \<lparr>canvas = 0, bg_image = None\<rparr>"
    by (simp add: st_def page_of_board)
  have h: "floating_image st = Some sticker" "move_mode st" "drawing st"
    by (simp_all add: st_def)
  have sz: "int (pm_width (store st ! canvas \<lparr>canvas = 0, bg_image = None\<rparr>)) = 100"
    "int (pm_height (store st ! canvas \<lparr>canvas = 0, bg_image = None\<rparr>)) = 100"
    "int (pm_width sticker) = 20" "int (pm_height sticker) = 20"
    by (simp_all add: st_def store_board sticker_def pm_width_filled pm_height_filled)
  have a: "[(True, (500::int, 700::int))] \<noteq> []"
    and b: "[(True, (500::int, 700::int)), (False, (- 900, - 900))] \<noteq> []"
    by simp_all
  show ?thesis
    using drag_clamped[OF pg h a, of qt0] drag_clamped[OF pg h b, of qt0] pg
    unfolding st_def[symmetric] Let_def sz by simp
qed

subsection \<open>C6: a snapshot empties the redo stack\<close>

text \<open>
  Claim C6. When \<open>snapshot\<close> returns (the start of a destructive operation, after an
  undo or not), the redo stack of the current page is empty: every redo state is
  discarded. A following \<open>redo\<close> returns the state it was given, so it changes neither
  the buffer nor the stacks; the same holds after the operation has painted.
\<close>

theorem redo_after_snapshot_noop:
  assumes "snapshot st = Inr st1"
  shows "current_page_idx st1 = current_page_idx st \<and>
         redo_stacks st1 (current_page_idx st) = Some [] \<and>
         redo st1 = Inr st1 \<and>
         redo (paint a f st1) = Inr (paint a f st1)"
proof -
  from assms obtain pg where pg: "page_of st = Some pg"
    using snapshot_Inr_page by blast
  define i where "i = current_page_idx st"
  define u where "u = stack_at (undo_stacks st) i @ [length (store st)]"
  have st1: "st1 = st\<lparr>store := store st @ [store st ! canvas pg],
                       undo_stacks := (undo_stacks st)(i \<mapsto> u),
                       redo_stacks := (redo_stacks st)(i \<mapsto> [])\<rparr>"
    using assms snapshot_page[OF pg] by (simp add: i_def u_def)
  have idx: "current_page_idx st1 = i" by (simp add: st1 i_def)
  have r: "redo_stacks st1 (current_page_idx st1) = Some []" by (simp add: st1 i_def)
  have r': "redo_stacks st1 (current_page_idx st) = Some []" by (simp add: st1 i_def)
  have us: "undo_stacks st1 (current_page_idx st1) = Some u" by (simp add: st1 i_def)
  have e: "ensure_stacks st1 = st1" using ensure_stacks_idem[OF us r] .
  have e2: "ensure_stacks (paint a f st1) = paint a f st1"
    by (rule ensure_stacks_idem[where u = u and r = "[]"]) (simp_all add: paint_def us r)
  have "redo st1 = Inr st1"
    by (simp add: redo_def Let_def e r stack_at_def)
  moreover have "redo (paint a f st1) = Inr (paint a f st1)"
    unfolding redo_def Let_def e2 by (simp add: stack_at_def paint_def r)
  ultimately show ?thesis using r' idx unfolding i_def by simp
qed

text \<open>
  On the board: after an undo the redo stack holds one state; the snapshot of the next
  operation empties it, and redo then changes nothing.
\<close>

theorem redo_after_snapshot_noop_witness:
  "redo_stacks (projr (undo board)) 0 = Some [2] \<and>
   \<not> isl (snapshot (projr (undo board))) \<and>
   redo_stacks (projr (snapshot (projr (undo board)))) 0 = Some [] \<and>
   redo (projr (snapshot (projr (undo board)))) = Inr (projr (snapshot (projr (undo board))))"
proof -
  have u: "undo board =
      Inr (board\<lparr>store := store board @ [store board ! 0],
                 undo_stacks := [0 \<mapsto> []], redo_stacks := [0 \<mapsto> [2]],
                 pages := [\<lparr>canvas = 1, bg_image = None\<rparr>]\<rparr>)"
    by (simp add: undo_def Let_def alloc_def ensure_stacks_def setdefault_def stack_at_def
        page_of_def board_def fresh_def numeral_2_eq_2)
  define st where "st = projr (undo board)"
  have idx: "current_page_idx st = 0" and r: "redo_stacks st 0 = Some [2]"
    unfolding st_def u by (simp_all add: board_def fresh_def)
  have pg: "page_of st = Some \<lparr>canvas = 1, bg_image = None\<rparr>"
    unfolding st_def u by (simp add: page_of_def board_def fresh_def)
  have s: "snapshot st = Inr (projr (snapshot st))"
    by (simp add: snapshot_page[OF pg])
  from redo_after_snapshot_noop[OF s, of 0 id] idx r s show ?thesis
    unfolding st_def[symmetric] by (metis sum.disc(2))
qed

subsection \<open>C7: pasting an image\<close>

text \<open>
  Claim C7, as amended. \<open>paste_image\<close> returns the state unchanged when the clipboard
  has no image or there is no current page. Otherwise the image \<open>pm\<close> becomes the
  floating image, move mode is on, and the position is
  \<open>(max 0 ((pw - ow) div 2), max 0 ((ph - oh) div 2))\<close>: the centred position when the
  image fits the page (\<open>ow \<le> pw\<close> and \<open>oh \<le> ph\<close>), and 0 on an axis where the image is
  larger than the page. An image of 20 by 20 on a page of 100 by 100 is placed at
  \<open>(40, 40)\<close>. No other field changes.
\<close>

theorem paste_places_overlay:
  "(isNull cb_pixmap \<and> isNull cb_image \<or> page_of st = None \<longrightarrow>
      paste_image cb_pixmap cb_image st = st) \<and>
   (\<not> (isNull cb_pixmap \<and> isNull cb_image) \<and> page_of st = Some pg \<longrightarrow>
      (let pm = (if isNull cb_pixmap then cb_image else cb_pixmap);
           pw = int (pm_width (store st ! canvas pg)); ph = int (pm_height (store st ! canvas pg));
           ow = int (pm_width pm); oh = int (pm_height pm);
           st' = paste_image cb_pixmap cb_image st
       in st' = st\<lparr>floating_image := Some pm,
                    floating_pos := (max 0 ((pw - ow) div 2), max 0 ((ph - oh) div 2)),
                    move_mode := True\<rparr> \<and>
          (ow \<le> pw \<and> oh \<le> ph \<longrightarrow> floating_pos st' = centered_pos pw ph ow oh) \<and>
          (pw < ow \<longrightarrow> fst (floating_pos st') = 0) \<and>
          (ph < oh \<longrightarrow> snd (floating_pos st') = 0) \<and>
          (pw = 100 \<and> ph = 100 \<and> ow = 20 \<and> oh = 20 \<longrightarrow> floating_pos st' = (40, 40))))"
  by (auto simp: paste_image_def Let_def size_of_def centered_pos_def split: option.splits)

text \<open>
  The sticker pasted on the board is placed at \<open>(40, 40)\<close>, its centred position; with
  an empty clipboard, and with no page, nothing changes.
\<close>

theorem paste_places_overlay_witness:
  "\<not> isNull sticker \<and> isNull null_pixmap \<and>
   page_of board = Some \<lparr>canvas = 0, bg_image = None\<rparr> \<and>
   paste_image sticker null_pixmap board =
     board\<lparr>floating_image := Some sticker, floating_pos := (40, 40), move_mode := True\<rparr> \<and>
   centered_pos 100 100 20 20 = (40, 40) \<and>
   paste_image null_pixmap null_pixmap board = board \<and>
   page_of (fresh 0) = None \<and> paste_image sticker null_pixmap (fresh 0) = fresh 0"
proof -
  have n: "\<not> isNull sticker" "isNull null_pixmap"
    by (simp_all add: isNull_def sticker_def pm_width_filled pm_height_filled null_pixmap_def)
  have f: "page_of (fresh 0) = None" by (simp add: page_of_def fresh_def)
  have sz: "pm_width (store board ! 0) = 100" "pm_height (store board ! 0) = 100"
    "pm_width sticker = 20" "pm_height sticker = 20"
    by (simp_all add: store_board sticker_def pm_width_filled pm_height_filled)
  show ?thesis
    using paste_places_overlay[of sticker null_pixmap board "\<lparr>canvas = 0, bg_image = None\<rparr>"]
      paste_places_overlay[of null_pixmap null_pixmap board "\<lparr>canvas = 0, bg_image = None\<rparr>"]
      paste_places_overlay[of sticker null_pixmap "fresh 0" "\<lparr>canvas = 0, bg_image = None\<rparr>"]
      n f page_of_board
    unfolding Let_def by (simp add: centered_pos_def sz)
qed

text \<open>
  The claim as stated fails for an image larger than the page. A red image of 120 by
  120 pasted on the board is placed at \<open>(0, 0)\<close>; centred, it would be at \<open>(-10, -10)\<close>.
\<close>

theorem paste_oversize_not_centered:
  "floating_pos (paste_image (filled 120 120 red) null_pixmap board) = (0, 0) \<and>
   centered_pos 100 100 120 120 = (- 10, - 10) \<and>
   floating_pos (paste_image (filled 120 120 red) null_pixmap board) \<noteq> centered_pos 100 100 120 120"
proof -
  have n: "\<not> isNull (filled 120 120 red)"
    by (simp add: isNull_def pm_width_filled pm_height_filled)
  have "floating_pos (paste_image (filled 120 120 red) null_pixmap board) = (0, 0)"
    using n by (simp add: paste_image_def page_of_board size_of_def store_board
        pm_width_filled pm_height_filled)
  then show ?thesis by (simp add: centered_pos_def)
qed

subsection \<open>C8: a press with the eyedropper armed\<close>

text \<open>
  Claim C8. A press of the left button with the eyedropper armed, at a point whose
  page-local position \<open>local\<close> is inside the canvas, where no drag of the overlay starts:
  the handler returns the state in which the pen colour is the colour of the pixel of
  the current page at \<open>local\<close> and the eyedropper, the eraser and the eraser action are
  off. Apart from the recorded toolbar height no other field changes: the store, the
  pages, the undo and redo stacks and the \<open>drawing\<close> flag are as before, so nothing is
  drawn, no stroke starts and no snapshot is pushed.
\<close>

theorem eyedropper_press:
  assumes "eyedropper st"
    and "local = (fst pos, snd pos - toolbar_height st)"
    and "in_canvas st local"
    and "\<not> inside_floating st local"
  shows "\<exists>pg st'. page_of st = Some pg \<and> mousePressEvent LeftButton pos st = Inr st' \<and>
     st' = st\<lparr>canvas_top := toolbar_height st,
              pen_color := QColor (pixel (store st ! canvas pg) local),
              eraser := False, eraser_act_checked := False, eyedropper := False\<rparr> \<and>
     store st' = store st \<and> pages st' = pages st \<and>
     undo_stacks st' = undo_stacks st \<and> redo_stacks st' = redo_stacks st \<and>
     drawing st' = drawing st"
proof -
  from assms(3) obtain pg where pg: "page_of st = Some pg"
    by (auto simp: in_canvas_def split: option.splits)
  show ?thesis
    using assms pg
    by (simp add: mousePressEvent_def drawing_rect_def set_pen_color_def)
qed

text \<open>On the board with the eraser on and the eyedropper armed, a press at \<open>(10, 10)\<close>.\<close>

theorem eyedropper_press_witness:
  "in_canvas (board\<lparr>eyedropper := True, eraser := True\<rparr>) (10, 10) \<and>
   \<not> inside_floating (board\<lparr>eyedropper := True, eraser := True\<rparr>) (10, 10) \<and>
   mousePressEvent LeftButton (10, 10) (board\<lparr>eyedropper := True, eraser := True\<rparr>) =
     Inr (board\<lparr>eyedropper := False, eraser := False, pen_color := white\<rparr>)"
proof -
  define st where "st = board\<lparr>eyedropper := True, eraser := True\<rparr>"
  have pg: "page_of st = Some \<lparr>canvas = 0, bg_image = None\<rparr>"
    by (simp add: st_def page_of_board)
  have tb: "toolbar_height st = 0" "canvas_top st = 0" "eraser_act_checked st = False"
    by (simp_all add: st_def board_def fresh_def)
  have a: "eyedropper st" by (simp add: st_def)
  have b: "(10, 10) = (fst (10::int, 10::int), snd (10::int, 10::int) - toolbar_height st)"
    by (simp add: tb)
  have c: "in_canvas st (10, 10)"
    by (simp add: in_canvas_def st_def page_of_board size_of_def store_board
        pm_width_filled pm_height_filled)
  have d: "\<not> inside_floating st (10, 10)"
    by (simp add: inside_floating_def st_def board_def fresh_def)
  have px: "QColor (pixel (store st ! 0) (10, 10)) = white"
    by (simp add: st_def store_board pixel_filled) (simp add: white_def)
  from eyedropper_press[OF a b c d] pg px tb c d show ?thesis
    unfolding st_def[symmetric]
    by (auto simp: st_def)
qed

subsection \<open>C9: snapshots share nothing with the live buffer\<close>

lemma run_snapshots_old:
  "run q evs st = Inr st' \<Longrightarrow> a \<in> snapshots st' \<Longrightarrow> a < length (store st) \<Longrightarrow>
     a \<in> snapshots st"
proof (induction evs arbitrary: st)
  case Nil
  then show ?case by simp
next
  case (Cons ev evs)
  from Cons.prems(1) obtain st1 where f: "fire q ev st = Inr st1" and r: "run q evs st1 = Inr st'"
    by (cases "fire q ev st") auto
  from store_mono_fire[OF f] Cons.prems(3) have "a < length (store st1)" by simp
  from Cons.IH[OF r Cons.prems(2) this] have "a \<in> snapshots st1" .
  with frame_fire(2)[OF f] Cons.prems(3) show ?case by blast
qed

lemma run_keeps_snapshot:
  "reachable q st \<Longrightarrow> a \<in> snapshots st \<Longrightarrow> run q evs st = Inr st' \<Longrightarrow>
     a \<in> snapshots st' \<Longrightarrow> store st' ! a = store st ! a"
proof (induction evs arbitrary: st)
  case Nil
  then show ?case by simp
next
  case (Cons ev evs)
  from Cons.prems(3) obtain st1 where f: "fire q ev st = Inr st1" and r: "run q evs st1 = Inr st'"
    by (cases "fire q ev st") auto
  note ok = reachable_heap_ok[OF Cons.prems(1)]
  note nc = snapshot_not_canvas[OF ok Cons.prems(2)]
  have "a < length (store st1)" using store_mono_fire[OF f] nc(1) by simp
  from run_snapshots_old[OF r Cons.prems(4) this] have a1: "a \<in> snapshots st1" .
  have "\<forall>pg. page_of st = Some pg \<longrightarrow> canvas pg \<noteq> a"
    using snapshot_not_live[OF ok Cons.prems(2)] .
  with frame_fire(1)[OF f] nc(1) have "store st1 ! a = store st ! a" by blast
  moreover from Cons.IH[OF reachable_step[OF Cons.prems(1) f] a1 r Cons.prems(4)]
  have "store st' ! a = store st1 ! a" .
  ultimately show ?case by simp
qed

text \<open>
  Claim C9. In every state the application can reach, a reference held by an undo or
  redo stack of any key is allocated and is the canvas of no page: the snapshot shares
  no storage with a live buffer. So every event (a pointer move that draws a segment,
  the stamping of the overlay, a background image, and all others) leaves the pixmap
  of the snapshot as it is; and after every run of events at whose end the reference
  is still held by a stack, the pixmap is what it was.
\<close>

theorem snapshot_isolation:
  assumes "reachable q st" and "a \<in> snapshots st"
  shows "a < length (store st) \<and>
         (\<forall>p < length (pages st). canvas (pages st ! p) \<noteq> a) \<and>
         (\<forall>ev st'. fire q ev st = Inr st' \<longrightarrow> store st' ! a = store st ! a) \<and>
         (\<forall>evs st'. run q evs st = Inr st' \<and> a \<in> snapshots st' \<longrightarrow>
            store st' ! a = store st ! a)"
proof -
  note ok = reachable_heap_ok[OF assms(1)]
  note nc = snapshot_not_canvas[OF ok assms(2)]
  have live: "\<forall>pg. page_of st = Some pg \<longrightarrow> canvas pg \<noteq> a"
    using snapshot_not_live[OF ok assms(2)] .
  have "\<forall>ev st'. fire q ev st = Inr st' \<longrightarrow> store st' ! a = store st ! a"
    using frame_fire(1) nc(1) live by blast
  moreover have "\<forall>evs st'. run q evs st = Inr st' \<and> a \<in> snapshots st' \<longrightarrow>
            store st' ! a = store st ! a"
    using run_keeps_snapshot[OF assms] by blast
  ultimately show ?thesis using nc by blast
qed

text \<open>
  During a stroke: the snapshot taken at the press is reference 2. The pointer move
  paints the canvas black; the snapshot is as before, and still white.
\<close>

theorem snapshot_isolation_witness:
  "reachable qt0 (projr stroke_started) \<and> 2 \<in> snapshots (projr stroke_started) \<and>
   store (mouseMoveEvent qt0 True (20, 50) (projr stroke_started)) ! 2 =
     store (projr stroke_started) ! 2 \<and>
   pixel (store (mouseMoveEvent qt0 True (20, 50) (projr stroke_started)) ! 2) (5, 5) = white \<and>
   pixel (store (mouseMoveEvent qt0 True (20, 50) (projr stroke_started)) ! 0) (5, 5) = black"
proof -
  define st where "st = projr stroke_started"
  have r: "reachable qt0 st" unfolding st_def by (rule stroke_started_reachable)
  have "slot_ref st (UndoAt 0 1) = Some 2"
    by (simp add: st_def stroke_started_eq)
  then have m: "2 \<in> snapshots st" unfolding snapshots_def by blast
  have f: "fire qt0 (MouseMove True (20, 50)) st = Inr (mouseMoveEvent qt0 True (20, 50) st)"
    by simp
  from snapshot_isolation[OF r m] f
  have k: "store (mouseMoveEvent qt0 True (20, 50) st) ! 2 = store st ! 2" by blast
  have w: "pixel (store st ! 2) (5, 5) = white"
    by (simp add: st_def stroke_started_eq numeral_eq_Suc pixel_filled)
  have mv: "mouseMoveEvent qt0 True (20, 50) st =
      (paint 0 (drawLine qt0 (10, 10) (20, 20) black 5) st)
        \<lparr>canvas_top := 30, last_point := (20, 20)\<rparr>"
    by (simp add: st_def stroke_started_eq mouseMoveEvent_def drawing_rect_def page_of_def
        draw_segment_def in_canvas_def size_of_def pm_width_filled pm_height_filled fresh_def
        paint_def Let_def)
  have b: "pixel (store (mouseMoveEvent qt0 True (20, 50) st) ! 0) (5, 5) = black"
    unfolding mv
    by (simp add: paint_def st_def stroke_started_eq drawLine_def pixel_repaint
        pm_width_filled pm_height_filled) (simp add: qt0_def)
  from r m k w b show ?thesis unfolding st_def by simp
qed

subsection \<open>C10: an overlay exists only in move mode\<close>

lemma snapshot_overlay:
  "snapshot st = Inr st' \<Longrightarrow>
     floating_image st' = floating_image st \<and> move_mode st' = move_mode st"
  by (auto simp: snapshot_def Let_def alloc_def ensure_stacks_def split: option.splits)

lemma undo_overlay:
  "undo st = Inr st' \<Longrightarrow>
     floating_image st' = floating_image st \<and> move_mode st' = move_mode st"
  by (auto simp: undo_def Let_def alloc_def ensure_stacks_def split: option.splits if_splits)

lemma redo_overlay:
  "redo st = Inr st' \<Longrightarrow>
     floating_image st' = floating_image st \<and> move_mode st' = move_mode st"
  by (auto simp: redo_def Let_def alloc_def ensure_stacks_def split: option.splits if_splits)

lemma Page_init_overlay:
  "Page_init q w h bg st = (pg, st') \<Longrightarrow>
     floating_image st' = floating_image st \<and> move_mode st' = move_mode st"
  by (auto simp: Page_init_def Page_set_background_def Let_def alloc_def paint_def
      split: option.splits if_splits)

lemma add_page_overlay:
  assumes "add_page q st = Inr st'"
  shows "floating_image st' = floating_image st \<and> move_mode st' = move_mode st"
proof -
  obtain pg st1 where p: "Page_init q (max 200 (win_width st))
      (max 200 (win_height st - toolbar_height st))
      (case page_of st of None \<Rightarrow> None | Some pg \<Rightarrow> bg_image pg) st = (pg, st1)"
    by fastforce
  from assms have "snapshot (ensure_stacks
      (st1\<lparr>pages := pages st1 @ [pg], current_page_idx := int (length (pages st1 @ [pg])) - 1\<rparr>))
      = Inr st'"
    by (simp add: add_page_def Let_def p)
  from snapshot_overlay[OF this] Page_init_overlay[OF p] show ?thesis
    by (simp add: ensure_stacks_def)
qed

lemma delete_overlay:
  "delete_current_page st = Inr st' \<Longrightarrow>
     floating_image st' = floating_image st \<and> move_mode st' = move_mode st"
  by (auto simp: delete_current_page_def Let_def split: if_splits)

lemma set_background_overlay:
  "set_background_image q fname st = Inr st' \<Longrightarrow>
     floating_image st' = floating_image st \<and> move_mode st' = move_mode st"
  by (auto simp: set_background_image_def Page_set_background_def Let_def paint_def
      dest!: snapshot_overlay split: if_splits sum.splits option.splits)

lemma mousePress_overlay:
  "mousePressEvent button pos st = Inr st' \<Longrightarrow>
     floating_image st' = floating_image st \<and> move_mode st' = move_mode st"
  by (auto simp: mousePressEvent_def drawing_rect_def set_pen_color_def Let_def
      dest!: snapshot_overlay split: if_splits option.splits)

lemma mouseMove_overlay:
  "floating_image (mouseMoveEvent q b pos st) = floating_image st \<and>
   move_mode (mouseMoveEvent q b pos st) = move_mode st"
  by (auto simp: mouseMoveEvent_def drawing_rect_def drag_floating_def draw_segment_def
      paint_def Let_def split: option.splits prod.splits)

lemma toggle_move_mode_overlay:
  "toggle_move_mode q st = Inr st' \<Longrightarrow> (floating_image st = None) = (\<not> move_mode st) \<Longrightarrow>
     floating_image st' = None \<and> \<not> move_mode st'"
  by (auto simp: toggle_move_mode_def paint_def split: option.splits if_splits sum.splits)

lemma fire_overlay:
  assumes "fire q ev st = Inr st'" and "(floating_image st = None) = (\<not> move_mode st)"
  shows "(floating_image st' = None) = (\<not> move_mode st')"
proof (cases ev)
  case Undo
  then show ?thesis using assms undo_overlay by auto
next
  case Redo
  then show ?thesis using assms redo_overlay by auto
next
  case AddPage
  then show ?thesis using assms add_page_overlay by auto
next
  case DeletePage
  then show ?thesis using assms delete_overlay by auto
next
  case (SetBackgroundImage fname)
  then show ?thesis using assms set_background_overlay by auto
next
  case (PasteImage cb_pixmap cb_image)
  then show ?thesis using assms
    by (auto simp: paste_image_def Let_def split: option.splits if_splits prod.splits)
next
  case ToggleMoveMode
  then show ?thesis using assms toggle_move_mode_overlay by auto
next
  case (MousePress button pos)
  then show ?thesis using assms mousePress_overlay by auto
next
  case (MouseMove b pos)
  with assms have "st' = mouseMoveEvent q b pos st" by simp
  then show ?thesis using assms(2) by (simp add: mouseMove_overlay)
qed (use assms in \<open>auto simp: change_page_def set_pen_color_def enable_eyedropper_def
      toggle_eraser_def toggle_eraser_shortcut_def set_pen_width_def mouseReleaseEvent_def
      resizeEvent_def Let_def split: if_splits\<close>)

lemma reachable_overlay:
  "reachable q st \<Longrightarrow> (floating_image st = None) = (\<not> move_mode st)"
proof (induction rule: reachable.induct)
  case (reachable_init tb st)
  then show ?case
    using add_page_overlay[of q "fresh tb" st] by (simp add: Notebook_init_def fresh_def)
next
  case (reachable_step st ev st')
  from fire_overlay[OF reachable_step.hyps(2) reachable_step.IH] show ?case .
qed

lemma press_with_overlay:
  assumes "floating_image st \<noteq> None"
  shows "\<exists>st'. mousePressEvent button pos st = Inr st' \<and> store st' = store st \<and>
           pages st' = pages st \<and>
           undo_stacks st' = undo_stacks st \<and> redo_stacks st' = redo_stacks st"
  using assms
  by (auto simp: mousePressEvent_def drawing_rect_def set_pen_color_def Let_def
      split: option.splits)

lemma move_with_overlay:
  assumes "floating_image st \<noteq> None"
  shows "store (mouseMoveEvent q b pos st) = store st"
  using assms
  by (auto simp: mouseMoveEvent_def drawing_rect_def drag_floating_def draw_segment_def
      Let_def split: option.splits prod.splits)

text \<open>
  Claim C10. In every state the application can reach, a floating image exists only
  with move mode on. So with a floating image a mouse press never starts a stroke: for
  every button and position it returns, and the store, the pages and the undo and redo
  stacks are as before (no snapshot is taken); pointer moves draw nothing either. And
  the branch of \<open>toggle_move_mode\<close> that only sets move mode (a floating image with
  move mode off) is never taken: in no reachable state is that its result.
\<close>

theorem floating_implies_move_mode:
  assumes "reachable q st"
  shows "(floating_image st \<noteq> None \<longrightarrow> move_mode st) \<and>
         (floating_image st \<noteq> None \<longrightarrow>
            (\<forall>button pos. \<exists>st'. mousePressEvent button pos st = Inr st' \<and>
                store st' = store st \<and> pages st' = pages st \<and>
                undo_stacks st' = undo_stacks st \<and> redo_stacks st' = redo_stacks st) \<and>
            (\<forall>b pos. store (mouseMoveEvent q b pos st) = store st)) \<and>
         \<not> (floating_image st \<noteq> None \<and> \<not> move_mode st) \<and>
         toggle_move_mode q st \<noteq> Inr (st\<lparr>move_mode := True\<rparr>)"
proof -
  have inv: "(floating_image st = None) = (\<not> move_mode st)"
    using assms by (rule reachable_overlay)
  have t: "toggle_move_mode q st \<noteq> Inr (st\<lparr>move_mode := True\<rparr>)"
  proof
    assume t: "toggle_move_mode q st = Inr (st\<lparr>move_mode := True\<rparr>)"
    from toggle_move_mode_overlay[OF t inv] show False by simp
  qed
  have m: "floating_image st \<noteq> None \<longrightarrow> move_mode st"
    using inv by auto
  have p: "floating_image st \<noteq> None \<longrightarrow>
            (\<forall>button pos. \<exists>st'. mousePressEvent button pos st = Inr st' \<and>
                store st' = store st \<and> pages st' = pages st \<and>
                undo_stacks st' = undo_stacks st \<and> redo_stacks st' = redo_stacks st) \<and>
            (\<forall>b pos. store (mouseMoveEvent q b pos st) = store st)"
    using press_with_overlay[of st] move_with_overlay[of st] by blast
  from m p t show ?thesis by blast
qed

text \<open>
  The application started with a toolbar of height 30, and the sticker pasted: the
  state is reachable, has a floating image, and move mode is on.
\<close>

theorem floating_implies_move_mode_witness:
  "reachable qt0 (paste_image sticker null_pixmap (projr (Notebook_init qt0 30))) \<and>
   floating_image (paste_image sticker null_pixmap (projr (Notebook_init qt0 30))) = Some sticker \<and>
   move_mode (paste_image sticker null_pixmap (projr (Notebook_init qt0 30))) \<and>
   \<not> isl (mousePressEvent LeftButton (5, 35)
            (paste_image sticker null_pixmap (projr (Notebook_init qt0 30))))"
proof -
  define st0 where "st0 = projr (Notebook_init qt0 30)"
  define st where "st = paste_image sticker null_pixmap st0"
  have i: "Notebook_init qt0 30 = Inr st0"
    by (simp add: st0_def Notebook_init_eq)
  have r0: "reachable qt0 st0" using i by (rule reachable_init)
  have "fire qt0 (PasteImage sticker null_pixmap) st0 = Inr st" by (simp add: st_def)
  with r0 have r: "reachable qt0 st" by (rule reachable_step)
  have p: "page_of st0 = Some \<lparr>canvas = 0, bg_image = None\<rparr>"
    by (simp add: st0_def Notebook_init_eq page_of_def)
  have n: "\<not> isNull sticker"
    by (simp add: isNull_def sticker_def pm_width_filled pm_height_filled)
  have f: "floating_image st = Some sticker"
    using n p by (simp add: st_def paste_image_def Let_def split: prod.splits)
  from floating_implies_move_mode[OF r] f
  have "move_mode st" and "\<exists>st'. mousePressEvent LeftButton (5, 35) st = Inr st'"
    by blast+
  then show ?thesis using r f unfolding st_def st0_def by auto
qed

end
